theory Spec2Isabelle
  imports Main
begin

section \<open>The admission webhook adapter\<close>

text \<open>
  The program under verification is one Go source file, admission controller: the pair \<open>doServeAdmitFunc\<close> /
  \<open>serveAdmitFunc\<close>, the record \<open>patchOperation\<close> and the callback type
  \<open>admitFunc\<close>. Everything the two functions do to the outside world is written into
  a list of events, in the order the statements run. Go's \<open>error\<close> interface is a value
  that carries its text; \<open>nil\<close> pointers, slices and errors are \<open>None\<close>.
\<close>

subsection \<open>Errors and constants\<close>

datatype error = errors_New string

fun Error :: "error \<Rightarrow> string" where
  "Error (errors_New msg) = msg"

definition jsonContentType :: string where
  "jsonContentType = ''application/json''"

definition MethodPost :: string where
  "MethodPost = ''POST''"

definition StatusOK :: nat where
  "StatusOK = 200"

definition StatusBadRequest :: nat where
  "StatusBadRequest = 400"

definition StatusMethodNotAllowed :: nat where
  "StatusMethodNotAllowed = 405"

definition StatusInternalServerError :: nat where
  "StatusInternalServerError = 500"

subsection \<open>Patch operations and the values an operation may carry\<close>

text \<open>
  The field \<open>Value\<close> has the Go type \<open>interface{}\<close>. The model covers these dynamic
  values: the nil interface, booleans, strings, slices of such values
  (\<open>[]interface{}\<close>, not nil) and channels; \<open>GoChan ty\<close> is a channel whose Go type
  prints as \<open>ty\<close> (for instance \<open>chan int\<close>). A slice of operations is
  \<open>patchOperation list option\<close>, with \<open>None\<close> the nil slice.
\<close>

datatype go_value =
    GoNil
  | GoBool bool
  | GoString string
  | GoSlice "go_value list"
  | GoChan string

record patchOperation =
  Op :: string
  Path :: string
  Value :: go_value

subsection \<open>The admission review envelope\<close>

text \<open>
  Of the Kubernetes types only the fields this file reads or writes are named. The
  fields of \<open>AdmissionRequest\<close> other than \<open>UID\<close> are never looked at here; they
  travel as one payload \<open>Rest\<close> of arbitrary type.
\<close>

record 'p AdmissionRequest =
  UID :: string
  Rest :: 'p

record Status =
  Message :: string

record AdmissionResponse =
  UID :: string
  Allowed :: bool
  Result :: "Status option"
  Patch :: "string option"

record 'p AdmissionReview =
  Request :: "'p AdmissionRequest option"
  Response :: "AdmissionResponse option"

subsection \<open>HTTP request, response writer, callback, events\<close>

text \<open>
  \<open>Body\<close> is what \<open>ioutil.ReadAll(r.Body)\<close> yields: the bytes, or the read error.
  \<open>Header\<close> maps a canonical header name to its values, and \<open>Header_Get\<close> is Go's
  \<open>Header.Get\<close>: the first value, or the empty string when there is none. A response writer decides
  whether a \<open>Write\<close> fails; its calls are recorded as events. The callback receives a
  pointer, so it returns the request as it left it, next to its two Go results.
\<close>

record http_Request =
  Method :: string
  Body :: "error + string"
  Header :: "string \<rightharpoonup> string list"

record ResponseWriter =
  Write_error :: "string \<Rightarrow> error option"

type_synonym 'p admitFunc =
  "'p AdmissionRequest \<Rightarrow> 'p AdmissionRequest \<times> patchOperation list option \<times> error option"

datatype 'p event =
    ReadAll
  | Decode string
  | AdmitCall "'p AdmissionRequest"
  | WriteHeader nat
  | Write string
  | Log string

definition Header_Get :: "(string \<rightharpoonup> string list) \<Rightarrow> string \<Rightarrow> string" where
  "Header_Get h key = (case h key of None \<Rightarrow> [] | Some [] \<Rightarrow> [] | Some (v # _) \<Rightarrow> v)"

subsection \<open>Encoding a slice of patch operations as JSON\<close>

text \<open>
  \<open>json.Marshal(patchOps)\<close> follows the field tags of \<open>patchOperation\<close>:
  \<open>op\<close> and \<open>path\<close> always, \<open>value\<close> left out for the nil interface
  (\<open>omitempty\<close>). Strings are written the way Go's encoder writes them: the bytes
  \<open>"\<close> and backslash get a backslash, newline, carriage return and tab their letter,
  other control bytes and \<open><\<close>, \<open>>\<close>, \<open>&\<close> the six-byte form with lower-case hex
  digits, a byte that starts no valid UTF-8 sequence becomes U+FFFD in the six-byte form,
  U+2028 and U+2029 are written in the six-byte form, and every other sequence is copied.
  (Later Go releases write backspace and form feed with their letters instead of the
  six-byte form; a decoder reads both alike.)
  A channel cannot be encoded: the encoder stops at the first one with an error.
\<close>

definition hex :: string where
  "hex = ''0123456789abcdef''"

definition htmlSafe :: "char \<Rightarrow> bool" where
  \<open>htmlSafe b \<longleftrightarrow>
     (0x20::nat) \<le> of_char b \<and> (of_char b :: nat) < 0x80 \<and> b \<notin> set ''"&<>'' \<and> b \<noteq> CHR 0x5C\<close>

definition escapeByte :: "char \<Rightarrow> string" where
  "escapeByte b =
     (if b = CHR 0x5C \<or> b = CHR 0x22 then [CHR 0x5C, b]
      else if b = CHR 0x0A then [CHR 0x5C, CHR ''n'']
      else if b = CHR 0x0D then [CHR 0x5C, CHR ''r'']
      else if b = CHR 0x09 then [CHR 0x5C, CHR ''t'']
      else [CHR 0x5C, CHR ''u'', CHR ''0'', CHR ''0'',
            hex ! (of_char b div 16), hex ! (of_char b mod 16)])"

text \<open>
  \<open>acceptRange b0\<close>: for a lead byte, the length of the sequence it starts and the
  bounds of its second byte; \<open>runeLen s\<close>: the length of the valid sequence at the head
  of \<open>s\<close>, or 0 when there is none.
\<close>

definition acceptRange :: "nat \<Rightarrow> (nat \<times> nat \<times> nat) option" where
  "acceptRange b0 =
     (if 0xC2 \<le> b0 \<and> b0 \<le> 0xDF then Some (2, 0x80, 0xBF)
      else if b0 = 0xE0 then Some (3, 0xA0, 0xBF)
      else if b0 = 0xED then Some (3, 0x80, 0x9F)
      else if 0xE1 \<le> b0 \<and> b0 \<le> 0xEF then Some (3, 0x80, 0xBF)
      else if b0 = 0xF0 then Some (4, 0x90, 0xBF)
      else if 0xF1 \<le> b0 \<and> b0 \<le> 0xF3 then Some (4, 0x80, 0xBF)
      else if b0 = 0xF4 then Some (4, 0x80, 0x8F)
      else None)"

definition continuation :: "char \<Rightarrow> bool" where
  "continuation c \<longleftrightarrow> (0x80::nat) \<le> of_char c \<and> (of_char c :: nat) \<le> 0xBF"

definition runeLen :: "string \<Rightarrow> nat" where
  "runeLen s =
     (case s of [] \<Rightarrow> 0
      | b0 # t \<Rightarrow>
          if (of_char b0 :: nat) < 0x80 then 1
          else (case acceptRange (of_char b0) of None \<Rightarrow> 0
                | Some (n, lo, hi) \<Rightarrow>
                    (case t of [] \<Rightarrow> 0
                     | b1 # u \<Rightarrow>
                         if lo \<le> of_char b1 \<and> (of_char b1 :: nat) \<le> hi
                            \<and> n - 2 \<le> length u \<and> list_all continuation (take (n - 2) u)
                         then n else 0)))"

function appendString :: "string \<Rightarrow> string" where
  "appendString [] = []"
| "appendString (b # s) =
     (if (of_char b :: nat) < 0x80 then
        (if htmlSafe b then [b] else escapeByte b) @ appendString s
      else if runeLen (b # s) = 0 then
        [CHR 0x5C] @ ''ufffd'' @ appendString s
      else if take 3 (b # s) = [CHR 0xE2, CHR 0x80, CHR 0xA8] then
        [CHR 0x5C] @ ''u2028'' @ appendString (drop 2 s)
      else if take 3 (b # s) = [CHR 0xE2, CHR 0x80, CHR 0xA9] then
        [CHR 0x5C] @ ''u2029'' @ appendString (drop 2 s)
      else take (runeLen (b # s)) (b # s) @ appendString (drop (runeLen (b # s) - 1) s))"
  by pat_completeness auto
termination
  by (relation "measure length") auto

definition encodeString :: "string \<Rightarrow> string" where
  "encodeString s = [CHR 0x22] @ appendString s @ [CHR 0x22]"

fun commaJoin :: "string list \<Rightarrow> string" where
  "commaJoin [] = []"
| "commaJoin [x] = x"
| "commaJoin (x # y # zs) = x @ '','' @ commaJoin (y # zs)"

fun encodeValue :: "go_value \<Rightarrow> error + string"
  and encodeValues :: "go_value list \<Rightarrow> error + string list" where
  "encodeValue GoNil = Inr ''null''"
| "encodeValue (GoBool b) = Inr (if b then ''true'' else ''false'')"
| "encodeValue (GoString s) = Inr (encodeString s)"
| "encodeValue (GoSlice vs) =
     (case encodeValues vs of
        Inl e \<Rightarrow> Inl e
      | Inr parts \<Rightarrow> Inr (''['' @ commaJoin parts @ '']''))"
| "encodeValue (GoChan ty) = Inl (errors_New (''json: unsupported type: '' @ ty))"
| "encodeValues [] = Inr []"
| "encodeValues (v # vs) =
     (case encodeValue v of
        Inl e \<Rightarrow> Inl e
      | Inr x \<Rightarrow> (case encodeValues vs of Inl e \<Rightarrow> Inl e | Inr xs \<Rightarrow> Inr (x # xs)))"

definition encodeOp :: "patchOperation \<Rightarrow> error + string" where
  \<open>encodeOp p =
     (let fixed = ''{"op":'' @ encodeString (Op p) @ '',"path":'' @ encodeString (Path p)
      in if Value p = GoNil then Inr (fixed @ ''}'')
         else (case encodeValue (Value p) of
                 Inl e \<Rightarrow> Inl e
               | Inr v \<Rightarrow> Inr (fixed @ '',"value":'' @ v @ ''}'')))\<close>

fun encodeOps :: "patchOperation list \<Rightarrow> error + string list" where
  "encodeOps [] = Inr []"
| "encodeOps (p # ps) =
     (case encodeOp p of
        Inl e \<Rightarrow> Inl e
      | Inr x \<Rightarrow> (case encodeOps ps of Inl e \<Rightarrow> Inl e | Inr xs \<Rightarrow> Inr (x # xs)))"

fun json_Marshal :: "patchOperation list option \<Rightarrow> error + string" where
  "json_Marshal None = Inr ''null''"
| "json_Marshal (Some ops) =
     (case encodeOps ops of
        Inl e \<Rightarrow> Inl e
      | Inr parts \<Rightarrow> Inr (''['' @ commaJoin parts @ '']''))"

subsection \<open>Decoding patch bytes\<close>

text \<open>
  The adapter never decodes a patch; its client does. To state what a client gets back,
  \<open>json_Unmarshal\<close> follows Go's \<open>json.Unmarshal\<close> into a nil
  \<open>[]patchOperation\<close>. A result is \<open>Decoded\<close> with the slice, \<open>Failed\<close> when
  Go returns an error (a syntax error or a value of the wrong type), or \<open>Unmodelled\<close>
  where this model says nothing: a number or an object met where any value may stand
  (Go would build a float64 or a map, which \<open>go_value\<close> does not have), or fuel used up.

  Strings are read as Go's \<open>unquote\<close> reads them: escapes are resolved, u-escapes
  (with surrogate pairs) become UTF-8, a byte that starts no valid sequence becomes
  U+FFFD, a control byte is an error. White space is skipped between tokens. Member
  names are matched without regard to case; unknown members are skipped; a repeated
  member overwrites; \<open>null\<close> leaves a string field or an element as it is. The
  recursive functions take fuel, one unit per call, and \<open>json_Unmarshal\<close> supplies
  the length of its input. (Go releases from 1.15 on refuse documents nested deeper than
  10000 levels; the model has no such bound.)
\<close>

datatype 'a decoded = Decoded 'a | Failed | Unmodelled

definition isSpace :: "char \<Rightarrow> bool" where
  "isSpace c \<longleftrightarrow> c = CHR '' '' \<or> c = CHR 0x09 \<or> c = CHR 0x0D \<or> c = CHR 0x0A"

definition skipSpace :: "string \<Rightarrow> string" where
  "skipSpace s = dropWhile isSpace s"

definition hexValue :: "char \<Rightarrow> nat option" where
  "hexValue c =
     (let n = of_char c :: nat in
      if 0x30 \<le> n \<and> n \<le> 0x39 then Some (n - 0x30)
      else if 0x61 \<le> n \<and> n \<le> 0x66 then Some (n - 0x61 + 10)
      else if 0x41 \<le> n \<and> n \<le> 0x46 then Some (n - 0x41 + 10)
      else None)"

definition getu4 :: "string \<Rightarrow> nat option" where
  "getu4 s =
     (case s of
        b # u # h1 # h2 # h3 # h4 # _ \<Rightarrow>
          if b = CHR 0x5C \<and> u = CHR ''u'' then
            (case (hexValue h1, hexValue h2, hexValue h3, hexValue h4) of
               (Some a, Some b, Some c, Some d) \<Rightarrow> Some (((a * 16 + b) * 16 + c) * 16 + d)
             | _ \<Rightarrow> None)
          else None
      | _ \<Rightarrow> None)"

definition replacementChar :: string where
  "replacementChar = [CHR 0xEF, CHR 0xBF, CHR 0xBD]"

definition encodeRune :: "nat \<Rightarrow> string" where
  "encodeRune r =
     (if r \<le> 0x7F then [char_of r]
      else if r \<le> 0x7FF then [char_of (0xC0 + r div 64), char_of (0x80 + r mod 64)]
      else if (0xD800 \<le> r \<and> r < 0xE000) \<or> 0x10FFFF < r then replacementChar
      else if r \<le> 0xFFFF then
        [char_of (0xE0 + r div 4096), char_of (0x80 + r div 64 mod 64), char_of (0x80 + r mod 64)]
      else
        [char_of (0xF0 + r div 262144), char_of (0x80 + r div 4096 mod 64),
         char_of (0x80 + r div 64 mod 64), char_of (0x80 + r mod 64)])"

definition simpleEscape :: "char \<Rightarrow> char option" where
  "simpleEscape e =
     (if e = CHR 0x22 \<or> e = CHR 0x5C \<or> e = CHR ''/'' then Some e
      else if e = CHR ''b'' then Some (CHR 0x08)
      else if e = CHR ''f'' then Some (CHR 0x0C)
      else if e = CHR ''n'' then Some (CHR 0x0A)
      else if e = CHR ''r'' then Some (CHR 0x0D)
      else if e = CHR ''t'' then Some (CHR 0x09)
      else None)"

definition prepend ::
  "string \<Rightarrow> (string \<times> string) decoded \<Rightarrow> (string \<times> string) decoded" where
  "prepend x res =
     (case res of
        Decoded (s, rest) \<Rightarrow> Decoded (x @ s, rest)
      | Failed \<Rightarrow> Failed
      | Unmodelled \<Rightarrow> Unmodelled)"

text \<open>
  \<open>unquote s\<close> reads a string whose opening quote has been consumed and yields its
  bytes and the input after the closing quote.
\<close>

function unquote :: "string \<Rightarrow> (string \<times> string) decoded" where
  "unquote [] = Failed"
| "unquote (c # cs) =
     (if c = CHR 0x22 then Decoded ([], cs)
      else if c = CHR 0x5C then
        (case cs of
           [] \<Rightarrow> Failed
         | e # es \<Rightarrow>
             if e = CHR ''u'' then
               (case getu4 (c # cs) of
                  None \<Rightarrow> Failed
                | Some rr \<Rightarrow>
                    if 0xD800 \<le> rr \<and> rr < 0xE000 then
                      (case getu4 (drop 4 es) of
                         None \<Rightarrow> prepend replacementChar (unquote (drop 4 es))
                       | Some rr1 \<Rightarrow>
                           if rr < 0xDC00 \<and> 0xDC00 \<le> rr1 \<and> rr1 < 0xE000 then
                             prepend (encodeRune (0x10000 + (rr - 0xD800) * 1024 + (rr1 - 0xDC00)))
                                     (unquote (drop 10 es))
                           else prepend replacementChar (unquote (drop 4 es)))
                    else prepend (encodeRune rr) (unquote (drop 4 es)))
             else (case simpleEscape e of
                     None \<Rightarrow> Failed
                   | Some b \<Rightarrow> prepend [b] (unquote es)))
      else if (of_char c :: nat) < 0x20 then Failed
      else if (of_char c :: nat) < 0x80 then prepend [c] (unquote cs)
      else if runeLen (c # cs) = 0 then prepend replacementChar (unquote cs)
      else prepend (take (runeLen (c # cs)) (c # cs)) (unquote (drop (runeLen (c # cs) - 1) cs)))"
  by pat_completeness auto
termination
  by (relation "measure length") auto

definition mapDecoded ::
  "('a \<Rightarrow> 'b) \<Rightarrow> ('a \<times> string) decoded \<Rightarrow> ('b \<times> string) decoded" where
  "mapDecoded f res =
     (case res of
        Decoded (x, rest) \<Rightarrow> Decoded (f x, rest)
      | Failed \<Rightarrow> Failed
      | Unmodelled \<Rightarrow> Unmodelled)"

text \<open>
  \<open>decodeValue\<close> reads a value into an \<open>interface{}\<close> (the field \<open>Value\<close>, or a
  member to be skipped) and \<open>decodeElements\<close> the elements of an array after the first
  has been seen to exist; both expect their input to begin at a token.
\<close>

definition isDigit :: "char \<Rightarrow> bool" where
  "isDigit c \<longleftrightarrow> (0x30::nat) \<le> of_char c \<and> (of_char c :: nat) \<le> 0x39"

fun decodeValue :: "nat \<Rightarrow> string \<Rightarrow> (go_value \<times> string) decoded"
  and decodeElements :: "nat \<Rightarrow> string \<Rightarrow> (go_value list \<times> string) decoded" where
  "decodeValue 0 s = Unmodelled"
| "decodeValue (Suc n) s =
     (case s of
        [] \<Rightarrow> Failed
      | c # cs \<Rightarrow>
          if c = CHR 0x22 then mapDecoded GoString (unquote cs)
          else if c = CHR ''['' then
            (case skipSpace cs of
               [] \<Rightarrow> Failed
             | d # ds \<Rightarrow>
                 if d = CHR '']'' then Decoded (GoSlice [], ds)
                 else mapDecoded GoSlice (decodeElements n (d # ds)))
          else if c = CHR ''{'' \<or> c = CHR ''-'' \<or> isDigit c then Unmodelled
          else if take 4 s = ''null'' then Decoded (GoNil, drop 4 s)
          else if take 4 s = ''true'' then Decoded (GoBool True, drop 4 s)
          else if take 5 s = ''false'' then Decoded (GoBool False, drop 5 s)
          else Failed)"
| "decodeElements 0 s = Unmodelled"
| "decodeElements (Suc n) s =
     (case decodeValue n s of
        Decoded (v, rest) \<Rightarrow>
          (case skipSpace rest of
             [] \<Rightarrow> Failed
           | d # ds \<Rightarrow>
               if d = CHR '','' then mapDecoded ((#) v) (decodeElements n (skipSpace ds))
               else if d = CHR '']'' then Decoded ([v], ds)
               else Failed)
      | Failed \<Rightarrow> Failed
      | Unmodelled \<Rightarrow> Unmodelled)"

text \<open>
  \<open>decodeMembers\<close> reads the members of an object into a \<open>patchOperation\<close>,
  \<open>decodeOp\<close> one element of the top-level array (an object, or \<open>null\<close>, which
  leaves the zero value) and \<open>decodeOps\<close> the elements of that array. The three field
  names contain no letter with a non-ASCII case variant, so folding ASCII letters decides
  the match.
\<close>

definition toLower :: "char \<Rightarrow> char" where
  "toLower c = (if (0x41::nat) \<le> of_char c \<and> (of_char c :: nat) \<le> 0x5A
                then char_of (of_char c + (0x20::nat)) else c)"

definition equalFold :: "string \<Rightarrow> string \<Rightarrow> bool" where
  "equalFold s t \<longleftrightarrow> map toLower s = map toLower t"

fun decodeMembers :: "nat \<Rightarrow> patchOperation \<Rightarrow> string \<Rightarrow> (patchOperation \<times> string) decoded" where
  "decodeMembers 0 p s = Unmodelled"
| "decodeMembers (Suc n) p s =
     (case s of
        [] \<Rightarrow> Failed
      | q # qs \<Rightarrow>
          if q \<noteq> CHR 0x22 then Failed
          else (case unquote qs of
                  Decoded (key, rest) \<Rightarrow>
                    (case skipSpace rest of
                       [] \<Rightarrow> Failed
                     | c # cs \<Rightarrow>
                         if c \<noteq> CHR '':'' then Failed
                         else
                           (case (let v = skipSpace cs in
                                  if equalFold key ''op'' \<or> equalFold key ''path'' then
                                    (case v of
                                       [] \<Rightarrow> Failed
                                     | d # ds \<Rightarrow>
                                         if d = CHR 0x22 then
                                           mapDecoded
                                             (\<lambda>x. if equalFold key ''op'' then p\<lparr>Op := x\<rparr>
                                                  else p\<lparr>Path := x\<rparr>)
                                             (unquote ds)
                                         else if take 4 v = ''null'' then Decoded (p, drop 4 v)
                                         else Failed)
                                  else if equalFold key ''value'' then
                                    mapDecoded (\<lambda>x. p\<lparr>Value := x\<rparr>) (decodeValue n v)
                                  else mapDecoded (\<lambda>x. p) (decodeValue n v)) of
                              Decoded (p', rest') \<Rightarrow>
                                (case skipSpace rest' of
                                   [] \<Rightarrow> Failed
                                 | d # ds \<Rightarrow>
                                     if d = CHR '','' then decodeMembers n p' (skipSpace ds)
                                     else if d = CHR ''}'' then Decoded (p', ds)
                                     else Failed)
                            | Failed \<Rightarrow> Failed
                            | Unmodelled \<Rightarrow> Unmodelled))
                | Failed \<Rightarrow> Failed
                | Unmodelled \<Rightarrow> Unmodelled))"

definition zeroOp :: patchOperation where
  "zeroOp = \<lparr>Op = [], Path = [], Value = GoNil\<rparr>"

definition decodeOp :: "nat \<Rightarrow> string \<Rightarrow> (patchOperation \<times> string) decoded" where
  "decodeOp n s =
     (case s of
        [] \<Rightarrow> Failed
      | c # cs \<Rightarrow>
          if c = CHR ''{'' then
            (case skipSpace cs of
               [] \<Rightarrow> Failed
             | d # ds \<Rightarrow>
                 if d = CHR ''}'' then Decoded (zeroOp, ds)
                 else decodeMembers n zeroOp (d # ds))
          else if take 4 s = ''null'' then Decoded (zeroOp, drop 4 s)
          else Failed)"

fun decodeOps :: "nat \<Rightarrow> string \<Rightarrow> (patchOperation list \<times> string) decoded" where
  "decodeOps 0 s = Unmodelled"
| "decodeOps (Suc n) s =
     (case decodeOp n s of
        Decoded (p, rest) \<Rightarrow>
          (case skipSpace rest of
             [] \<Rightarrow> Failed
           | d # ds \<Rightarrow>
               if d = CHR '','' then mapDecoded ((#) p) (decodeOps n (skipSpace ds))
               else if d = CHR '']'' then Decoded ([p], ds)
               else Failed)
      | Failed \<Rightarrow> Failed
      | Unmodelled \<Rightarrow> Unmodelled)"

definition json_Unmarshal :: "string \<Rightarrow> patchOperation list option decoded" where
  "json_Unmarshal s =
     (case (let t = skipSpace s in
            case t of
              [] \<Rightarrow> Failed
            | c # cs \<Rightarrow>
                if c = CHR ''['' then
                  (case skipSpace cs of
                     [] \<Rightarrow> Failed
                   | d # ds \<Rightarrow>
                       if d = CHR '']'' then Decoded (Some [], ds)
                       else mapDecoded Some (decodeOps (length s) (d # ds)))
                else if take 4 t = ''null'' then Decoded (None, drop 4 t)
                else Failed) of
        Decoded (ops, rest) \<Rightarrow> if skipSpace rest = [] then Decoded ops else Failed
      | Failed \<Rightarrow> Failed
      | Unmodelled \<Rightarrow> Unmodelled)"

text \<open>
  \<open>validString\<close> is Go's \<open>utf8.ValidString\<close>; \<open>validOps\<close> says that every string
  in a slice of operations is valid UTF-8.
\<close>

function validString :: "string \<Rightarrow> bool" where
  "validString [] = True"
| "validString (b # s) = (runeLen (b # s) \<noteq> 0 \<and> validString (drop (runeLen (b # s) - 1) s))"
  by pat_completeness auto
termination
  by (relation "measure length") auto

fun validValue :: "go_value \<Rightarrow> bool" where
  "validValue (GoString s) = validString s"
| "validValue (GoSlice vs) = list_all validValue vs"
| "validValue _ = True"

definition validOp :: "patchOperation \<Rightarrow> bool" where
  "validOp p \<longleftrightarrow> validString (Op p) \<and> validString (Path p) \<and> validValue (Value p)"

fun validOps :: "patchOperation list option \<Rightarrow> bool" where
  "validOps None = True"
| "validOps (Some ops) = list_all validOp ops"

text \<open>
  Two notions used to state facts about encoder output: \<open>startsValue x\<close>, the text
  \<open>x\<close> begins with a byte that is neither white space nor a closing bracket or brace;
  \<open>fixedPart p\<close>, the two members every encoded operation has.
\<close>

definition startsValue :: "string \<Rightarrow> bool" where
  "startsValue x =
     (case x of [] \<Rightarrow> False | c # t \<Rightarrow> \<not> isSpace c \<and> c \<noteq> CHR '']'' \<and> c \<noteq> CHR ''}'')"

definition fixedPart :: "patchOperation \<Rightarrow> string" where
  \<open>fixedPart p = ''"op":'' @ encodeString (Op p) @ '',"path":'' @ encodeString (Path p)\<close>

subsection \<open>The adapter and its wrapper\<close>

text \<open>
  \<open>doServeAdmitFunc\<close> takes, before the three arguments of the Go function, the two
  library operations on Kubernetes types it calls:
  \<open>universalDeserializer_Decode\<close> for \<open>universalDeserializer.Decode(body, nil, &admissionReviewReq)\<close>
  and \<open>json_Marshal_review\<close> for \<open>json.Marshal(&admissionReviewResponse)\<close>.
  It returns its events and the Go pair \<open>([]byte, error)\<close> as a sum. The events
  \<open>ReadAll\<close>, \<open>Decode\<close> and \<open>AdmitCall\<close> mark the calls of \<open>ioutil.ReadAll\<close>, of the
  deserializer and of the callback.
\<close>

definition doServeAdmitFunc ::
  "(string \<Rightarrow> error + 'p AdmissionReview) \<Rightarrow> ('p AdmissionReview \<Rightarrow> error + string) \<Rightarrow>
   ResponseWriter \<Rightarrow> http_Request \<Rightarrow> 'p admitFunc \<Rightarrow> 'p event list \<times> (error + string)" where
  "doServeAdmitFunc universalDeserializer_Decode json_Marshal_review w r admit =
     (if Method r \<noteq> MethodPost then
        ([WriteHeader StatusMethodNotAllowed],
         Inl (errors_New (''invalid method '' @ Method r @ '', only POST requests are allowed'')))
      else case Body r of
        Inl err \<Rightarrow>
          ([ReadAll, WriteHeader StatusBadRequest],
           Inl (errors_New (''could not read request body: '' @ Error err)))
      | Inr body \<Rightarrow>
          let contentType = Header_Get (Header r) ''Content-Type'' in
          if contentType \<noteq> jsonContentType then
            ([ReadAll, WriteHeader StatusBadRequest],
             Inl (errors_New (''unsupported content type '' @ contentType @ '', only ''
                              @ jsonContentType @ '' is supported'')))
          else (case universalDeserializer_Decode body of
            Inl err \<Rightarrow>
              ([ReadAll, Decode body, WriteHeader StatusBadRequest],
               Inl (errors_New (''could not deserialize request: '' @ Error err)))
          | Inr admissionReviewReq \<Rightarrow>
              (case Request admissionReviewReq of
                 None \<Rightarrow>
                   ([ReadAll, Decode body, WriteHeader StatusBadRequest],
                    Inl (errors_New ''malformed admission review: request is nil''))
               | Some request \<Rightarrow>
                   let response = \<lparr>AdmissionResponse.UID = AdmissionRequest.UID request,
                                   Allowed = False, Result = None, Patch = None\<rparr>;
                       (request', patchOps, err) = admit request;
                       called = [ReadAll, Decode body, AdmitCall request];
                       marshalReview = (\<lambda>response'.
                         case json_Marshal_review
                                \<lparr>Request = None, Response = Some response'\<rparr> of
                           Inl e \<Rightarrow>
                             (called, Inl (errors_New (''marshaling response: '' @ Error e)))
                         | Inr bytes \<Rightarrow> (called, Inr bytes))
                   in (case err of
                         Some e \<Rightarrow>
                           marshalReview
                             (response\<lparr>Allowed := False,
                                        Result := Some \<lparr>Message = Error e\<rparr>\<rparr>)
                       | None \<Rightarrow>
                           (case json_Marshal patchOps of
                              Inl e \<Rightarrow>
                                (called @ [WriteHeader StatusInternalServerError],
                                 Inl (errors_New
                                        (''could not marshal JSON patch: '' @ Error e)))
                            | Inr patchBytes \<Rightarrow>
                                marshalReview
                                  (response\<lparr>Allowed := True,
                                             Patch := Some patchBytes\<rparr>))))))"

definition logWriteErr :: "error option \<Rightarrow> 'p event list" where
  "logWriteErr writeErr =
     (case writeErr of
        None \<Rightarrow> []
      | Some e \<Rightarrow> [Log (''Could not write response: '' @ Error e)])"

definition serveAdmitFunc ::
  "(string \<Rightarrow> error + 'p AdmissionReview) \<Rightarrow> ('p AdmissionReview \<Rightarrow> error + string) \<Rightarrow>
   ResponseWriter \<Rightarrow> http_Request \<Rightarrow> 'p admitFunc \<Rightarrow> 'p event list" where
  "serveAdmitFunc universalDeserializer_Decode json_Marshal_review w r admit =
     (case doServeAdmitFunc universalDeserializer_Decode json_Marshal_review w r admit of
        (evs, Inl err) \<Rightarrow>
          [Log ''Handling webhook request ...''] @ evs @
          [Log (''Error handling webhook request: '' @ Error err),
           WriteHeader StatusInternalServerError,
           Write (Error err)] @ logWriteErr (Write_error w (Error err))
      | (evs, Inr bytes) \<Rightarrow>
          [Log ''Handling webhook request ...''] @ evs @
          [Log ''Webhook request handled successfully'',
           Write bytes] @ logWriteErr (Write_error w bytes))"

definition admitFuncHandler ::
  "(string \<Rightarrow> error + 'p AdmissionReview) \<Rightarrow> ('p AdmissionReview \<Rightarrow> error + string) \<Rightarrow>
   'p admitFunc \<Rightarrow> ResponseWriter \<Rightarrow> http_Request \<Rightarrow> 'p event list" where
  "admitFuncHandler universalDeserializer_Decode json_Marshal_review admit =
     (\<lambda>w r. serveAdmitFunc universalDeserializer_Decode json_Marshal_review w r admit)"

subsection \<open>What the client of a net/http server observes\<close>

text \<open>
  The standard response writer of Go's net/http sends the status line once: the first
  \<open>WriteHeader\<close> fixes the code and later calls are ignored, and a \<open>Write\<close> that comes
  before any \<open>WriteHeader\<close> sends 200 first. A handler that returns without either gets 200.
\<close>

fun statusSent :: "'p event list \<Rightarrow> nat option" where
  "statusSent [] = None"
| "statusSent (WriteHeader code # evs) = Some code"
| "statusSent (Write b # evs) = Some StatusOK"
| "statusSent (_ # evs) = statusSent evs"

definition httpStatus :: "'p event list \<Rightarrow> nat" where
  "httpStatus evs = (case statusSent evs of None \<Rightarrow> StatusOK | Some code \<Rightarrow> code)"

fun bodyWritten :: "'p event list \<Rightarrow> string" where
  "bodyWritten [] = []"
| "bodyWritten (Write b # evs) = b @ bodyWritten evs"
| "bodyWritten (_ # evs) = bodyWritten evs"

fun admitCalls :: "'p event list \<Rightarrow> 'p AdmissionRequest list" where
  "admitCalls [] = []"
| "admitCalls (AdmitCall q # evs) = q # admitCalls evs"
| "admitCalls (_ # evs) = admitCalls evs"

subsection \<open>Vocabulary of the specification\<close>

text \<open>
  \<open>validated\<close> says in the specification's words which requests pass validation and
  decoding: the method is POST, the body can be read, the content type is exactly the JSON
  media type, and the body decodes to an envelope whose inner request is not null. It
  yields the body and the inner request. \<open>encodeReview\<close> names the last statement of
  \<open>doServeAdmitFunc\<close>, the encoding of the envelope around a response, so that the
  envelope that is encoded can be spoken about.
\<close>

definition validated ::
  "(string \<Rightarrow> error + 'p AdmissionReview) \<Rightarrow> http_Request \<Rightarrow>
   (string \<times> 'p AdmissionRequest) option" where
  "validated universalDeserializer_Decode r =
     (if Method r = ''POST'' \<and> Header_Get (Header r) ''Content-Type'' = ''application/json'' then
        (case Body r of
           Inl _ \<Rightarrow> None
         | Inr body \<Rightarrow>
             (case universalDeserializer_Decode body of
                Inl _ \<Rightarrow> None
              | Inr review \<Rightarrow>
                  (case Request review of
                     None \<Rightarrow> None
                   | Some request \<Rightarrow> Some (body, request))))
      else None)"

definition encodeReview ::
  "('p AdmissionReview \<Rightarrow> error + string) \<Rightarrow> AdmissionResponse \<Rightarrow> error + string" where
  "encodeReview json_Marshal_review response =
     (case json_Marshal_review \<lparr>Request = None, Response = Some response\<rparr> of
        Inl e \<Rightarrow> Inl (errors_New (''marshaling response: '' @ Error e))
      | Inr bytes \<Rightarrow> Inr bytes)"

subsection \<open>Sample inputs\<close>

text \<open>
  Concrete requests, callbacks and stand-ins for the two library operations, used to run
  the theorems below on explicit inputs. \<open>sampleMarshal\<close> prints the fields of the
  response in a line of text; \<open>sampleDeny\<close> overwrites the UID of the request it is
  handed before it refuses; \<open>sampleSwitch\<close> agrees with \<open>sampleDeny\<close> at
  \<open>sampleRequest\<close> only.
\<close>

definition sampleBody :: string where
  \<open>sampleBody = ''{"request":{"uid":"abc-1"}}''\<close>

definition sampleRequest :: "unit AdmissionRequest" where
  "sampleRequest = \<lparr>AdmissionRequest.UID = ''abc-1'', Rest = ()\<rparr>"

definition sampleDecode :: "string \<Rightarrow> error + unit AdmissionReview" where
  "sampleDecode body =
     (if body = sampleBody then Inr \<lparr>Request = Some sampleRequest, Response = None\<rparr>
      else if body = ''{}'' then Inr \<lparr>Request = None, Response = None\<rparr>
      else Inl (errors_New ''unexpected end of JSON input''))"

definition sampleMarshal :: "unit AdmissionReview \<Rightarrow> error + string" where
  "sampleMarshal review =
     Inr (case Response review of
            None \<Rightarrow> ''review''
          | Some response \<Rightarrow>
              ''uid='' @ AdmissionResponse.UID response
              @ (if Allowed response then '' allowed'' else '' denied'')
              @ (case Result response of None \<Rightarrow> [] | Some st \<Rightarrow> '' message='' @ Message st)
              @ (case Patch response of None \<Rightarrow> [] | Some p \<Rightarrow> '' patch='' @ p))"

definition sampleWriter :: ResponseWriter where
  "sampleWriter = \<lparr>Write_error = (\<lambda>_. None)\<rparr>"

definition samplePost :: http_Request where
  "samplePost = \<lparr>Method = ''POST'', Body = Inr sampleBody,
                 Header = [''Content-Type'' \<mapsto> [''application/json'']]\<rparr>"

definition sampleGet :: http_Request where
  "sampleGet = \<lparr>Method = ''GET'', Body = Inr [], Header = Map.empty\<rparr>"

definition sampleCharset :: http_Request where
  "sampleCharset = \<lparr>Method = ''POST'', Body = Inr sampleBody,
                    Header = [''Content-Type'' \<mapsto> [''application/json; charset=utf-8'']]\<rparr>"

definition sampleEmpty :: http_Request where
  "sampleEmpty = \<lparr>Method = ''POST'', Body = Inr ''{}'',
                  Header = [''Content-Type'' \<mapsto> [''application/json'']]\<rparr>"

definition sampleOps :: "patchOperation list" where
  "sampleOps = [\<lparr>Op = ''add'', Path = ''/spec/foo'', Value = GoString ''bar''\<rparr>]"

definition samplePatch :: string where
  \<open>samplePatch = ''[{"op":"add","path":"/spec/foo","value":"bar"}]''\<close>

definition sampleAllow :: "unit admitFunc" where
  "sampleAllow q = (q, Some sampleOps, None)"

definition sampleDeny :: "unit admitFunc" where
  "sampleDeny q =
     (q\<lparr>AdmissionRequest.UID := ''changed''\<rparr>, None, Some (errors_New ''image not allowed''))"

definition sampleSwitch :: "unit admitFunc" where
  "sampleSwitch q = (if q = sampleRequest then sampleDeny q else sampleAllow q)"

definition sampleNil :: "unit admitFunc" where
  "sampleNil q = (q, None, None)"

definition sampleLatin1 :: "unit admitFunc" where
  "sampleLatin1 q = (q, Some [\<lparr>Op = [CHR 0xFF], Path = ''/x'', Value = GoNil\<rparr>], None)"

definition latin1Patch :: string where
  \<open>latin1Patch = ''[{"op":"'' @ [CHR 0x5C] @ ''ufffd","path":"/x"}]''\<close>

definition sampleChan :: "unit admitFunc" where
  "sampleChan q =
     (q, Some [\<lparr>Op = ''add'', Path = ''/spec/foo'', Value = GoChan ''chan int''\<rparr>], None)"

section \<open>Decoding what the encoder wrote\<close>

lemma prepend_Decoded [simp]: "prepend x (Decoded (s, rest)) = Decoded (x @ s, rest)"
  by (simp add: prepend_def)

lemma hexValue_hex:
  assumes "k < 16"
  shows "hexValue (hex ! k) = Some k"
proof -
  from assms have "k = 0 \<or> k = 1 \<or> k = 2 \<or> k = 3 \<or> k = 4 \<or> k = 5 \<or> k = 6 \<or> k = 7 \<or> k = 8
      \<or> k = 9 \<or> k = 10 \<or> k = 11 \<or> k = 12 \<or> k = 13 \<or> k = 14 \<or> k = 15"
    by arith
  then show ?thesis
    by (elim disjE) (simp_all add: hex_def hexValue_def)
qed

lemma unquote_safe:
  assumes "htmlSafe c"
  shows "unquote (c # cs) = prepend [c] (unquote cs)"
  using assms by (auto simp: htmlSafe_def)

lemma unquote_unicode_escape:
  assumes "(of_char b :: nat) < 0x80"
  shows "unquote ([CHR 0x5C, CHR ''u'', CHR ''0'', CHR ''0'',
                   hex ! (of_char b div 16), hex ! (of_char b mod 16)] @ cs)
         = prepend [b] (unquote cs)"
proof -
  have d: "(of_char b :: nat) div 16 < 16" using assms by simp
  have m: "(of_char b :: nat) mod 16 < 16" by simp
  have z: "hexValue (CHR ''0'') = Some 0" by (simp add: hexValue_def)
  have g: "getu4 ([CHR 0x5C, CHR ''u'', CHR ''0'', CHR ''0'',
                   hex ! (of_char b div 16), hex ! (of_char b mod 16)] @ cs) = Some (of_char b)"
    by (simp add: getu4_def z hexValue_hex[OF d] hexValue_hex[OF m])
  have e: "encodeRune (of_char b) = [b]"
    using assms by (simp add: encodeRune_def)
  show ?thesis
    using g e assms by simp
qed

lemma unquote_escapeByte:
  assumes "(of_char b :: nat) < 0x80" and "\<not> htmlSafe b"
  shows "unquote (escapeByte b @ cs) = prepend [b] (unquote cs)"
proof -
  consider "b = CHR 0x5C" | "b = CHR 0x22" | "b = CHR 0x0A" | "b = CHR 0x0D" | "b = CHR 0x09"
    | "b \<noteq> CHR 0x5C" "b \<noteq> CHR 0x22" "b \<noteq> CHR 0x0A" "b \<noteq> CHR 0x0D" "b \<noteq> CHR 0x09"
    by blast
  then show ?thesis
  proof cases
    case 6
    then have "escapeByte b = [CHR 0x5C, CHR ''u'', CHR ''0'', CHR ''0'',
                   hex ! (of_char b div 16), hex ! (of_char b mod 16)]"
      by (simp add: escapeByte_def)
    then show ?thesis using unquote_unicode_escape[OF assms(1), of cs] by simp
  qed (simp_all add: escapeByte_def simpleEscape_def)
qed

lemma acceptRange_length:
  "acceptRange b0 = Some (n, lo, hi) \<Longrightarrow> n = 2 \<or> n = 3 \<or> n = 4"
  by (auto simp: acceptRange_def split: if_splits)

lemma runeLen_ascii: "(of_char b :: nat) < 0x80 \<Longrightarrow> runeLen (b # s) = 1"
  by (simp add: runeLen_def)

lemma runeLen_le_length: "runeLen s \<le> length s"
  by (auto simp: runeLen_def split: list.splits option.splits dest: acceptRange_length)

lemma runeLen_prefix:
  assumes "runeLen s = n" and "n \<noteq> 0"
  shows "runeLen (take n s @ t) = n"
proof (cases s)
  case Nil
  with assms show ?thesis by (simp add: runeLen_def)
next
  case (Cons b0 u)
  show ?thesis
  proof (cases "(of_char b0 :: nat) < 0x80")
    case True
    with assms Cons have "n = 1" by (simp add: runeLen_def)
    with True Cons show ?thesis by (simp add: runeLen_def)
  next
    case False
    with assms Cons obtain m lo hi b1 v where
      a: "acceptRange (of_char b0) = Some (m, lo, hi)" and u: "u = b1 # v"
      and c: "lo \<le> of_char b1" "(of_char b1 :: nat) \<le> hi" "m - 2 \<le> length v"
             "list_all continuation (take (m - 2) v)"
      and n: "n = m"
      by (auto simp: runeLen_def split: option.splits list.splits if_splits)
    from acceptRange_length[OF a] have m: "m = 2 \<or> m = 3 \<or> m = 4" .
    then have t: "take m (b0 # b1 # v) = b0 # b1 # take (m - 2) v"
      by (auto simp: take_Cons')
    show ?thesis
      using False a c m by (auto simp: Cons u n t runeLen_def)
  qed
qed

lemma unquote_rune:
  assumes "\<not> (of_char c :: nat) < 0x80" and "runeLen (c # cs) = n" and "n \<noteq> 0"
  shows "unquote (take n (c # cs) @ t) = prepend (take n (c # cs)) (unquote t)"
proof -
  from assms(3) obtain k where k: "n = Suc k" by (cases n) auto
  from runeLen_le_length[of "c # cs"] assms(2) k have len: "k \<le> length cs" by simp
  have p: "runeLen (c # (take k cs @ t)) = Suc k"
    using runeLen_prefix[OF assms(2,3), of t] by (simp add: k)
  have c1: "c \<noteq> CHR 0x22" "c \<noteq> CHR 0x5C" using assms(1) by auto
  have c2: "\<not> (of_char c :: nat) < 0x20" using assms(1) by simp
  have "unquote (c # (take k cs @ t))
          = prepend (take (Suc k) (c # (take k cs @ t))) (unquote (drop k (take k cs @ t)))"
    using c1 c2 assms(1) p by simp
  then show ?thesis using len by (simp add: k)
qed

lemma encodeRune_2028: "encodeRune 0x2028 = [CHR 0xE2, CHR 0x80, CHR 0xA8]"
  by (simp add: encodeRune_def char_of_eq_iff)

lemma encodeRune_2029: "encodeRune 0x2029 = [CHR 0xE2, CHR 0x80, CHR 0xA9]"
  by (simp add: encodeRune_def char_of_eq_iff)

lemma unquote_u2028:
  "unquote ([CHR 0x5C] @ ''u2028'' @ t) = prepend [CHR 0xE2, CHR 0x80, CHR 0xA8] (unquote t)"
proof -
  have g: "getu4 ([CHR 0x5C] @ ''u2028'' @ t) = Some 0x2028"
    by (simp add: getu4_def hexValue_def)
  show ?thesis using g encodeRune_2028 by simp
qed

lemma unquote_u2029:
  "unquote ([CHR 0x5C] @ ''u2029'' @ t) = prepend [CHR 0xE2, CHR 0x80, CHR 0xA9] (unquote t)"
proof -
  have g: "getu4 ([CHR 0x5C] @ ''u2029'' @ t) = Some 0x2029"
    by (simp add: getu4_def hexValue_def)
  show ?thesis using g encodeRune_2029 by simp
qed

lemma runeLen_line_separator:
  assumes "take 3 (b # s) = [CHR 0xE2, CHR 0x80, c]" and "c = CHR 0xA8 \<or> c = CHR 0xA9"
  shows "runeLen (b # s) = 3"
proof -
  from assms(1) obtain v where "b # s = CHR 0xE2 # CHR 0x80 # c # v"
    by (cases s; cases "tl s") auto
  with assms(2) show ?thesis
    by (auto simp: runeLen_def acceptRange_def continuation_def)
qed

lemma appendString_line_separator:
  "appendString (CHR 0xE2 # CHR 0x80 # CHR 0xA8 # v) = [CHR 0x5C] @ ''u2028'' @ appendString v"
  "appendString (CHR 0xE2 # CHR 0x80 # CHR 0xA9 # v) = [CHR 0x5C] @ ''u2029'' @ appendString v"
  by (simp_all add: runeLen_def acceptRange_def continuation_def)

lemma take3_eq:
  assumes "take 3 (b # s) = [x, y, z]"
  shows "\<exists>v. b = x \<and> s = y # z # v \<and> drop 2 s = v"
proof (cases s)
  case Nil
  with assms show ?thesis by simp
next
  case (Cons c u)
  with assms show ?thesis by (cases u) auto
qed

lemma unquote_appendString:
  "validString s \<Longrightarrow> unquote (appendString s @ CHR 0x22 # rest) = Decoded (s, rest)"
proof (induction s rule: appendString.induct)
  case 1
  show ?case by simp
next
  case (2 b s)
  from "2.prems" have nz: "runeLen (b # s) \<noteq> 0"
    and v: "validString (drop (runeLen (b # s) - 1) s)"
    by simp_all
  show ?case
  proof (cases "(of_char b :: nat) < 0x80")
    case True
    with v have "validString s" by (simp add: runeLen_ascii)
    with "2.IH"(1)[OF True]
    have ih: "unquote (appendString s @ CHR 0x22 # rest) = Decoded (s, rest)" .
    show ?thesis
    proof (cases "htmlSafe b")
      case safe: True
      have "appendString (b # s) = b # appendString s" using True safe by simp
      then show ?thesis using unquote_safe[OF safe] ih by simp
    next
      case unsafe: False
      have "appendString (b # s) = escapeByte b @ appendString s" using True unsafe by simp
      then show ?thesis using unquote_escapeByte[OF True unsafe] ih by simp
    qed
  next
    case False
    consider (ls) "take 3 (b # s) = [CHR 0xE2, CHR 0x80, CHR 0xA8]"
      | (ps) "take 3 (b # s) \<noteq> [CHR 0xE2, CHR 0x80, CHR 0xA8]"
             "take 3 (b # s) = [CHR 0xE2, CHR 0x80, CHR 0xA9]"
      | (other) "take 3 (b # s) \<noteq> [CHR 0xE2, CHR 0x80, CHR 0xA8]"
                "take 3 (b # s) \<noteq> [CHR 0xE2, CHR 0x80, CHR 0xA9]"
      by blast
    then show ?thesis
    proof cases
      case ls
      from runeLen_line_separator[OF ls] have r3: "runeLen (b # s) = 3" by simp
      with v have v': "validString (drop 2 s)" by simp
      from "2.IH"(3)[OF False nz ls v']
      have ih: "unquote (appendString (drop 2 s) @ CHR 0x22 # rest) = Decoded (drop 2 s, rest)" .
      from take3_eq[OF ls] obtain u where
        bs: "b = CHR 0xE2" "s = CHR 0x80 # CHR 0xA8 # u" and u: "drop 2 s = u"
        by blast
      from ih have ih': "unquote (appendString u @ CHR 0x22 # rest) = Decoded (u, rest)"
        by (simp only: u)
      have "unquote (([CHR 0x5C] @ ''u2028'' @ appendString u) @ CHR 0x22 # rest)
              = prepend [CHR 0xE2, CHR 0x80, CHR 0xA8] (unquote (appendString u @ CHR 0x22 # rest))"
        using unquote_u2028[of "appendString u @ CHR 0x22 # rest"] by (simp only: append_assoc)
      then show ?thesis
        by (simp only: bs appendString_line_separator ih' prepend_Decoded append.simps)
    next
      case ps
      from runeLen_line_separator[OF ps(2)] have r3: "runeLen (b # s) = 3" by simp
      with v have v': "validString (drop 2 s)" by simp
      from "2.IH"(4)[OF False nz ps(1) ps(2) v']
      have ih: "unquote (appendString (drop 2 s) @ CHR 0x22 # rest) = Decoded (drop 2 s, rest)" .
      from take3_eq[OF ps(2)] obtain u where
        bs: "b = CHR 0xE2" "s = CHR 0x80 # CHR 0xA9 # u" and u: "drop 2 s = u"
        by blast
      from ih have ih': "unquote (appendString u @ CHR 0x22 # rest) = Decoded (u, rest)"
        by (simp only: u)
      have "unquote (([CHR 0x5C] @ ''u2029'' @ appendString u) @ CHR 0x22 # rest)
              = prepend [CHR 0xE2, CHR 0x80, CHR 0xA9] (unquote (appendString u @ CHR 0x22 # rest))"
        using unquote_u2029[of "appendString u @ CHR 0x22 # rest"] by (simp only: append_assoc)
      then show ?thesis
        by (simp only: bs appendString_line_separator ih' prepend_Decoded append.simps)
    next
      case other
      let ?n = "runeLen (b # s)"
      from "2.IH"(5)[OF False nz other v]
      have ih: "unquote (appendString (drop (?n - 1) s) @ CHR 0x22 # rest)
                  = Decoded (drop (?n - 1) s, rest)" .
      have a: "appendString (b # s) = take ?n (b # s) @ appendString (drop (?n - 1) s)"
        by (simp only: appendString.simps False nz other if_False)
      have bs: "take ?n (b # s) @ drop (?n - 1) s = b # s"
        using nz by (cases ?n) simp_all
      have "unquote (appendString (b # s) @ CHR 0x22 # rest)
              = prepend (take ?n (b # s))
                  (unquote (appendString (drop (?n - 1) s) @ CHR 0x22 # rest))"
        unfolding a using unquote_rune[OF False refl nz] by (simp only: append_assoc)
      also have "\<dots> = Decoded (take ?n (b # s) @ drop (?n - 1) s, rest)"
        by (simp only: ih prepend_Decoded)
      finally show ?thesis by (simp only: bs)
    qed
  qed
qed

lemma mapDecoded_Decoded [simp]: "mapDecoded f (Decoded (x, rest)) = Decoded (f x, rest)"
  by (simp add: mapDecoded_def)

lemma skipSpace_Cons: "\<not> isSpace c \<Longrightarrow> skipSpace (c # s) = c # s"
  by (simp add: skipSpace_def)

lemma startsValue_iff:
  "startsValue x \<longleftrightarrow>
     (\<exists>c t. x = c # t \<and> \<not> isSpace c \<and> c \<noteq> CHR '']'' \<and> c \<noteq> CHR ''}'')"
  by (cases x) (simp_all add: startsValue_def)

lemma startsValue_skipSpace: "startsValue x \<Longrightarrow> skipSpace (x @ t) = x @ t"
  by (auto simp: startsValue_iff skipSpace_Cons)

lemma encodeValue_starts: "encodeValue v = Inr x \<Longrightarrow> startsValue x"
  by (cases v) (auto simp: startsValue_iff encodeString_def isSpace_def split: sum.splits)

lemma encodeValues_list_all2:
  "encodeValues vs = Inr parts \<Longrightarrow> list_all2 (\<lambda>v x. encodeValue v = Inr x) vs parts"
  by (induction vs arbitrary: parts) (auto split: sum.splits)

lemma decodeValue_string:
  assumes "validString s"
  shows "decodeValue (Suc n) (encodeString s @ rest) = Decoded (GoString s, rest)"
  using unquote_appendString[OF assms, of rest] by (simp add: encodeString_def)

lemma decodeValue_null: "decodeValue (Suc n) (''null'' @ rest) = Decoded (GoNil, rest)"
  by (simp add: isDigit_def)

lemma decodeValue_true: "decodeValue (Suc n) (''true'' @ rest) = Decoded (GoBool True, rest)"
  by (simp add: isDigit_def)

lemma decodeValue_false: "decodeValue (Suc n) (''false'' @ rest) = Decoded (GoBool False, rest)"
  by (simp add: isDigit_def)

lemma commaJoin_Cons:
  "commaJoin (x # xs) = (if xs = [] then x else x @ CHR '','' # commaJoin xs)"
  by (cases xs) simp_all

lemma startsValue_commaJoin:
  "list_all2 (\<lambda>v x. encodeValue v = Inr x) vs parts \<Longrightarrow> vs \<noteq> []
   \<Longrightarrow> startsValue (commaJoin parts @ t)"
  by (cases vs; cases parts)
     (auto simp: commaJoin_Cons startsValue_iff dest!: encodeValue_starts)

lemma encodeValue_nonempty: "encodeValue v = Inr x \<Longrightarrow> x \<noteq> []"
  by (drule encodeValue_starts) (auto simp: startsValue_iff)

lemma decodeElements_commaJoin:
  assumes "list_all2 (\<lambda>v x. encodeValue v = Inr x
              \<and> (\<forall>n rest. length x \<le> n \<longrightarrow> decodeValue n (x @ rest) = Decoded (v, rest)))
            vs parts"
    and "vs \<noteq> []" and "length (commaJoin parts) < n"
  shows "decodeElements n (commaJoin parts @ CHR '']'' # rest) = Decoded (vs, rest)"
  using assms
proof (induction vs parts arbitrary: n rule: list_all2_induct)
  case Nil
  then show ?case by simp
next
  case (Cons v vs x parts)
  from Cons.prems(2) obtain m where n: "n = Suc m" by (cases n) auto
  from Cons.hyps(1) have enc: "encodeValue v = Inr x"
    and dec: "\<And>k rest. length x \<le> k \<Longrightarrow> decodeValue k (x @ rest) = Decoded (v, rest)"
    by auto
  show ?case
  proof (cases "vs = []")
    case True
    with Cons.hyps(2) have p: "parts = []" by simp
    from Cons.prems(2) p n have "length x \<le> m" by simp
    from dec[OF this] show ?thesis
      by (simp add: n p True skipSpace_Cons isSpace_def)
  next
    case False
    with Cons.hyps(2) have p: "parts \<noteq> []" by auto
    from Cons.hyps(2) have l2: "list_all2 (\<lambda>v x. encodeValue v = Inr x) vs parts"
      by (rule list_all2_mono) simp
    have j: "commaJoin (x # parts) = x @ CHR '','' # commaJoin parts"
      using p by (simp add: commaJoin_Cons)
    from Cons.prems(2) n j have lx: "length x \<le> m" and lr: "length (commaJoin parts) < m"
      by simp_all
    have sk: "skipSpace (commaJoin parts @ CHR '']'' # rest) = commaJoin parts @ CHR '']'' # rest"
      using startsValue_commaJoin[OF l2 False, of "[]"] startsValue_skipSpace by simp
    from Cons.IH[OF False lr]
    have ih: "decodeElements m (commaJoin parts @ CHR '']'' # rest) = Decoded (vs, rest)" .
    show ?thesis
      by (simp add: n j dec[OF lx] skipSpace_Cons isSpace_def sk ih)
  qed
qed

lemma decodeValue_slice:
  assumes parts: "encodeValues vs = Inr parts"
    and IH: "\<And>v x n rest. v \<in> set vs \<Longrightarrow> encodeValue v = Inr x \<Longrightarrow> length x \<le> n
               \<Longrightarrow> decodeValue n (x @ rest) = Decoded (v, rest)"
    and lr: "length (commaJoin parts) < m"
  shows "decodeValue (Suc m) (CHR ''['' # commaJoin parts @ CHR '']'' # rest)
           = Decoded (GoSlice vs, rest)"
proof (cases "vs = []")
  case True
  with parts have "parts = []" by simp
  then show ?thesis by (simp add: True skipSpace_Cons isSpace_def)
next
  case False
  from encodeValues_list_all2[OF parts]
  have l2: "list_all2 (\<lambda>v x. encodeValue v = Inr x) vs parts" .
  have l2': "list_all2 (\<lambda>v x. encodeValue v = Inr x
            \<and> (\<forall>n rest. length x \<le> n \<longrightarrow> decodeValue n (x @ rest) = Decoded (v, rest)))
          vs parts"
    using l2
  proof (rule list.rel_mono_strong)
    fix v y assume "v \<in> set vs" and "encodeValue v = Inr y"
    then show "encodeValue v = Inr y
        \<and> (\<forall>n rest. length y \<le> n \<longrightarrow> decodeValue n (y @ rest) = Decoded (v, rest))"
      using IH by simp
  qed
  from startsValue_commaJoin[OF l2 False, of "CHR '']'' # rest"]
  obtain c t where ct: "commaJoin parts @ CHR '']'' # rest = c # t"
    and c: "\<not> isSpace c" "c \<noteq> CHR '']''"
    by (auto simp: startsValue_iff)
  from decodeElements_commaJoin[OF l2' False lr, of rest]
  have de: "decodeElements m (c # t) = Decoded (vs, rest)" by (simp only: ct)
  have "decodeValue (Suc m) (CHR ''['' # c # t) = Decoded (GoSlice vs, rest)"
    using c by (simp add: skipSpace_Cons de)
  then show ?thesis by (simp only: ct)
qed

lemma decodeValue_encodeValue:
  "encodeValue v = Inr x \<Longrightarrow> validValue v \<Longrightarrow> length x \<le> n
   \<Longrightarrow> decodeValue n (x @ rest) = Decoded (v, rest)"
proof (induction v arbitrary: x n rest)
  case GoNil
  from GoNil(1) have x: "x = ''null''" by simp
  with GoNil(3) obtain m where "n = Suc m" by (cases n) auto
  then show ?case using decodeValue_null[of m rest] by (simp only: x)
next
  case (GoBool b)
  from GoBool(1) have x: "x = (if b then ''true'' else ''false'')" by simp
  with GoBool(3) obtain m where "n = Suc m" by (cases n) (auto split: if_splits)
  then show ?case
    using decodeValue_true[of m rest] decodeValue_false[of m rest]
    by (cases b) (simp_all only: x if_True if_False)
next
  case (GoString s)
  from GoString(1) have x: "x = encodeString s" by simp
  with GoString(3) obtain m where "n = Suc m" by (cases n) (auto simp: encodeString_def)
  moreover from GoString(2) have "validString s" by simp
  ultimately show ?case using decodeValue_string[of s m rest] by (simp only: x)
next
  case (GoSlice vs)
  from GoSlice.prems(1) obtain parts where
    parts: "encodeValues vs = Inr parts" and x: "x = CHR ''['' # commaJoin parts @ '']''"
    by (auto split: sum.splits)
  from GoSlice.prems(3) x obtain m where n: "n = Suc m" and lr: "length (commaJoin parts) < m"
    by (cases n) auto
  from GoSlice.prems(2) have av: "\<And>v. v \<in> set vs \<Longrightarrow> validValue v"
    by (simp add: list_all_iff)
  have "decodeValue (Suc m) (CHR ''['' # commaJoin parts @ CHR '']'' # rest)
           = Decoded (GoSlice vs, rest)"
    using parts _ lr
  proof (rule decodeValue_slice)
    fix v y k r assume "v \<in> set vs" and "encodeValue v = Inr y" and "length y \<le> k"
    then show "decodeValue k (y @ r) = Decoded (v, r)"
      using GoSlice.IH[of v y k r] av[of v] by simp
  qed
  then show ?case by (simp add: x n)
next
  case (GoChan ty)
  then show ?case by simp
qed

lemma unquote_encodeString:
  "validString s \<Longrightarrow> unquote (tl (encodeString s) @ rest) = Decoded (s, rest)"
  using unquote_appendString[of s rest] by (simp add: encodeString_def)

lemma encodeString_Cons: "encodeString s = CHR 0x22 # tl (encodeString s)"
  by (simp add: encodeString_def)

lemma equalFold_names:
  "equalFold ''op'' ''op''" "\<not> equalFold ''path'' ''op''" "equalFold ''path'' ''path''"
  "\<not> equalFold ''value'' ''op''" "\<not> equalFold ''value'' ''path''"
  "equalFold ''value'' ''value''"
  by (simp_all add: equalFold_def toLower_def)

lemma unquote_op: \<open>unquote (''op"'' @ t) = Decoded (''op'', t)\<close>
  by simp

lemma unquote_path: \<open>unquote (''path"'' @ t) = Decoded (''path'', t)\<close>
  by simp

lemma unquote_value: \<open>unquote (''value"'' @ t) = Decoded (''value'', t)\<close>
  by simp

lemma decodeMembers_op:
  assumes "validString s"
  shows \<open>decodeMembers (Suc n) p (''"op":'' @ encodeString s @ CHR '','' # CHR 0x22 # t)
           = decodeMembers n (p\<lparr>Op := s\<rparr>) (CHR 0x22 # t)\<close>
proof -
  have u: "unquote (tl (encodeString s) @ CHR '','' # CHR 0x22 # t)
             = Decoded (s, CHR '','' # CHR 0x22 # t)"
    by (rule unquote_encodeString[OF assms])
  have \<open>decodeMembers (Suc n) p (''"op":'' @ CHR 0x22 # tl (encodeString s) @ CHR '','' # CHR 0x22 # t)
           = decodeMembers n (p\<lparr>Op := s\<rparr>) (CHR 0x22 # t)\<close>
    using unquote_op[of "CHR '':'' # CHR 0x22 # tl (encodeString s) @ CHR '','' # CHR 0x22 # t"]
    by (simp add: skipSpace_Cons isSpace_def equalFold_names u del: unquote.simps)
  then show ?thesis
    by (subst encodeString_Cons) simp
qed

lemma decodeMembers_path_more:
  assumes "validString s"
  shows \<open>decodeMembers (Suc n) p (''"path":'' @ encodeString s @ CHR '','' # CHR 0x22 # t)
           = decodeMembers n (p\<lparr>Path := s\<rparr>) (CHR 0x22 # t)\<close>
proof -
  have u: "unquote (tl (encodeString s) @ CHR '','' # CHR 0x22 # t)
             = Decoded (s, CHR '','' # CHR 0x22 # t)"
    by (rule unquote_encodeString[OF assms])
  have \<open>decodeMembers (Suc n) p (''"path":'' @ CHR 0x22 # tl (encodeString s) @ CHR '','' # CHR 0x22 # t)
           = decodeMembers n (p\<lparr>Path := s\<rparr>) (CHR 0x22 # t)\<close>
    using unquote_path[of "CHR '':'' # CHR 0x22 # tl (encodeString s) @ CHR '','' # CHR 0x22 # t"]
    by (simp add: skipSpace_Cons isSpace_def equalFold_names u del: unquote.simps)
  then show ?thesis
    by (subst encodeString_Cons) simp
qed

lemma decodeMembers_path_last:
  assumes "validString s"
  shows \<open>decodeMembers (Suc n) p (''"path":'' @ encodeString s @ CHR ''}'' # rest)
           = Decoded (p\<lparr>Path := s\<rparr>, rest)\<close>
proof -
  have u: "unquote (tl (encodeString s) @ CHR ''}'' # rest) = Decoded (s, CHR ''}'' # rest)"
    by (rule unquote_encodeString[OF assms])
  have \<open>decodeMembers (Suc n) p (''"path":'' @ CHR 0x22 # tl (encodeString s) @ CHR ''}'' # rest)
           = Decoded (p\<lparr>Path := s\<rparr>, rest)\<close>
    using unquote_path[of "CHR '':'' # CHR 0x22 # tl (encodeString s) @ CHR ''}'' # rest"]
    by (simp add: skipSpace_Cons isSpace_def equalFold_names u del: unquote.simps)
  then show ?thesis
    by (subst encodeString_Cons) simp
qed

lemma decodeMembers_value_last:
  assumes "encodeValue v = Inr x" and "validValue v" and "length x \<le> n"
  shows \<open>decodeMembers (Suc n) p (''"value":'' @ x @ CHR ''}'' # rest)
           = Decoded (p\<lparr>Value := v\<rparr>, rest)\<close>
proof -
  have d: "decodeValue n (x @ CHR ''}'' # rest) = Decoded (v, CHR ''}'' # rest)"
    by (rule decodeValue_encodeValue[OF assms])
  have sk: "skipSpace (x @ CHR ''}'' # rest) = x @ CHR ''}'' # rest"
    by (rule startsValue_skipSpace[OF encodeValue_starts[OF assms(1)]])
  show ?thesis
    using unquote_value[of "CHR '':'' # x @ CHR ''}'' # rest"]
    by (simp add: skipSpace_Cons isSpace_def equalFold_names sk d del: unquote.simps)
qed

lemma length_encodeString: "2 \<le> length (encodeString s)"
  by (simp add: encodeString_def)

lemma encodeOp_shape:
  assumes "encodeOp p = Inr x"
  shows \<open>(Value p = GoNil \<and> x = CHR ''{'' # fixedPart p @ ''}'')
         \<or> (Value p \<noteq> GoNil \<and> (\<exists>v. encodeValue (Value p) = Inr v
                \<and> x = CHR ''{'' # fixedPart p @ '',"value":'' @ v @ ''}''))\<close>
  using assms by (auto simp: encodeOp_def fixedPart_def Let_def split: if_splits sum.splits)

lemma decodeOp_encodeOp:
  assumes enc: "encodeOp p = Inr x" and valid: "validOp p" and len: "length x \<le> n"
  shows "decodeOp n (x @ rest) = Decoded (p, rest)"
proof -
  from valid have vo: "validString (Op p)" and vp: "validString (Path p)"
    and vv: "validValue (Value p)"
    by (simp_all add: validOp_def)
  have start: "\<And>k t. decodeOp k (CHR ''{'' # fixedPart p @ t)
                        = decodeMembers k zeroOp (fixedPart p @ t)"
    by (simp add: decodeOp_def fixedPart_def skipSpace_Cons isSpace_def)
  from encodeOp_shape[OF enc] consider
      (nil) "Value p = GoNil" "x = CHR ''{'' # fixedPart p @ ''}''"
    | (val) v where "Value p \<noteq> GoNil" "encodeValue (Value p) = Inr v"
        \<open>x = CHR ''{'' # fixedPart p @ '',"value":'' @ v @ ''}''\<close>
    by blast
  then show ?thesis
  proof cases
    case nil
    from len nil(2) length_encodeString[of "Op p"] length_encodeString[of "Path p"]
    obtain m where n: "n = Suc (Suc m)"
      by (cases n; cases "n - 1") (auto simp: fixedPart_def)
    have "decodeMembers (Suc (Suc m)) zeroOp (fixedPart p @ CHR ''}'' # rest)
            = Decoded (zeroOp\<lparr>Op := Op p, Path := Path p\<rparr>, rest)"
      using decodeMembers_op[OF vo, of "Suc m" zeroOp
              \<open>''path":'' @ encodeString (Path p) @ CHR ''}'' # rest\<close>]
            decodeMembers_path_last[OF vp, of m "zeroOp\<lparr>Op := Op p\<rparr>" rest]
      by (simp add: fixedPart_def)
    moreover have "zeroOp\<lparr>Op := Op p, Path := Path p\<rparr> = p"
      using nil(1) by (simp add: zeroOp_def)
    ultimately show ?thesis
      by (simp add: nil(2) start n)
  next
    case val
    from len val(3) length_encodeString[of "Op p"] length_encodeString[of "Path p"]
    obtain m where n: "n = Suc (Suc (Suc m))" and lv: "length v \<le> m"
      by (cases n; cases "n - 1"; cases "n - 2") (auto simp: fixedPart_def)
    have \<open>decodeMembers (Suc (Suc (Suc m))) zeroOp
             (fixedPart p @ '',"value":'' @ v @ CHR ''}'' # rest)
            = Decoded (zeroOp\<lparr>Op := Op p, Path := Path p, Value := Value p\<rparr>, rest)\<close>
      using decodeMembers_op[OF vo, of "Suc (Suc m)" zeroOp
              \<open>''path":'' @ encodeString (Path p) @ '',"value":'' @ v @ CHR ''}'' # rest\<close>]
            decodeMembers_path_more[OF vp, of "Suc m" "zeroOp\<lparr>Op := Op p\<rparr>"
              \<open>''value":'' @ v @ CHR ''}'' # rest\<close>]
            decodeMembers_value_last[OF val(2) vv lv, of "zeroOp\<lparr>Op := Op p, Path := Path p\<rparr>" rest]
      by (simp add: fixedPart_def)
    moreover have "zeroOp\<lparr>Op := Op p, Path := Path p, Value := Value p\<rparr> = p"
      by (simp add: zeroOp_def)
    ultimately show ?thesis
      by (simp add: val(3) start n)
  qed
qed

lemma encodeOps_list_all2:
  "encodeOps ops = Inr parts \<Longrightarrow> list_all2 (\<lambda>p x. encodeOp p = Inr x) ops parts"
  by (induction ops arbitrary: parts) (auto split: sum.splits)

lemma encodeOp_starts: "encodeOp p = Inr x \<Longrightarrow> \<exists>t. x = CHR ''{'' # t"
  by (drule encodeOp_shape) auto

lemma decodeOps_commaJoin:
  assumes "list_all2 (\<lambda>p x. encodeOp p = Inr x \<and> validOp p) ops parts"
    and "ops \<noteq> []" and "length (commaJoin parts) < n"
  shows "decodeOps n (commaJoin parts @ CHR '']'' # rest) = Decoded (ops, rest)"
  using assms
proof (induction ops parts arbitrary: n rule: list_all2_induct)
  case Nil
  then show ?case by simp
next
  case (Cons p ops x parts)
  from Cons.prems(2) obtain m where n: "n = Suc m" by (cases n) auto
  from Cons.hyps(1) have enc: "encodeOp p = Inr x" and valid: "validOp p" by auto
  show ?case
  proof (cases "ops = []")
    case True
    with Cons.hyps(2) have ps: "parts = []" by simp
    from Cons.prems(2) ps n have "length x \<le> m" by simp
    from decodeOp_encodeOp[OF enc valid this, of "CHR '']'' # rest"] show ?thesis
      by (simp add: n ps True skipSpace_Cons isSpace_def)
  next
    case False
    with Cons.hyps(2) obtain y ys where ps: "parts = y # ys" by (cases parts) auto
    with Cons.hyps(2) False obtain q where "encodeOp q = Inr y" by (cases ops) auto
    from encodeOp_starts[OF this] obtain t where y: "y = CHR ''{'' # t" by blast
    have j: "commaJoin (x # parts) = x @ CHR '','' # commaJoin parts"
      by (simp add: ps)
    from Cons.prems(2) n j have lx: "length x \<le> m" and lr: "length (commaJoin parts) < m"
      by simp_all
    have "\<exists>u. commaJoin parts @ CHR '']'' # rest = CHR ''{'' # u"
      by (cases ys) (simp_all add: ps y)
    then have sk: "skipSpace (commaJoin parts @ CHR '']'' # rest)
                     = commaJoin parts @ CHR '']'' # rest"
      by (auto simp: skipSpace_Cons isSpace_def)
    from Cons.IH[OF False lr]
    have ih: "decodeOps m (commaJoin parts @ CHR '']'' # rest) = Decoded (ops, rest)" .
    from decodeOp_encodeOp[OF enc valid lx, of "CHR '','' # commaJoin parts @ CHR '']'' # rest"]
    show ?thesis
      by (simp add: n j skipSpace_Cons isSpace_def sk ih)
  qed
qed

lemma json_Unmarshal_json_Marshal:
  assumes "json_Marshal patchOps = Inr patchBytes" and "validOps patchOps"
  shows "json_Unmarshal patchBytes = Decoded patchOps"
proof (cases patchOps)
  case None
  with assms(1) have "patchBytes = ''null''" by simp
  then show ?thesis
    by (simp add: None json_Unmarshal_def skipSpace_def isSpace_def)
next
  case (Some ops)
  with assms(1) obtain parts where
    parts: "encodeOps ops = Inr parts" and b: "patchBytes = CHR ''['' # commaJoin parts @ '']''"
    by (auto split: sum.splits)
  show ?thesis
  proof (cases "ops = []")
    case True
    with parts have "parts = []" by simp
    then show ?thesis
      by (simp add: Some True b json_Unmarshal_def skipSpace_def isSpace_def)
  next
    case False
    from assms(2) Some have av: "\<And>p. p \<in> set ops \<Longrightarrow> validOp p"
      by (simp add: list_all_iff)
    have l2: "list_all2 (\<lambda>p x. encodeOp p = Inr x \<and> validOp p) ops parts"
      using encodeOps_list_all2[OF parts]
    proof (rule list.rel_mono_strong)
      fix p x assume "p \<in> set ops" and "encodeOp p = Inr x"
      then show "encodeOp p = Inr x \<and> validOp p" using av by simp
    qed
    from False l2 obtain p ps y ys where "ops = p # ps" "parts = y # ys" "encodeOp p = Inr y"
      by (cases ops; cases parts) auto
    with encodeOp_starts[of p y] obtain u where
      u: "commaJoin parts @ '']'' = CHR ''{'' # u"
      by (cases ys) auto
    have lr: "length (commaJoin parts) < length patchBytes" by (simp add: b)
    from decodeOps_commaJoin[OF l2 False lr, of "[]"]
    have "decodeOps (length patchBytes) (CHR ''{'' # u) = Decoded (ops, [])"
      by (simp add: u)
    then show ?thesis
      by (simp add: Some b u json_Unmarshal_def skipSpace_def isSpace_def)
  qed
qed

section \<open>Shared lemmas\<close>

lemma validatedD:
  assumes "validated D r = Some (body, request)"
  shows "Method r = MethodPost" and "Body r = Inr body"
    and "Header_Get (Header r) ''Content-Type'' = jsonContentType"
    and "\<exists>review. D body = Inr review \<and> Request review = Some request"
  using assms
  by (auto simp: validated_def MethodPost_def jsonContentType_def
           split: if_splits sum.splits option.splits)

lemma validated_Some_iff:
  "validated D r = Some (body, request) \<longleftrightarrow>
     Method r = ''POST'' \<and> Body r = Inr body
     \<and> Header_Get (Header r) ''Content-Type'' = ''application/json''
     \<and> (\<exists>review. D body = Inr review \<and> Request review = Some request)"
  by (auto simp: validated_def split: sum.splits option.splits)

lemma validated_None_iff:
  "validated D r = None \<longleftrightarrow>
     Method r \<noteq> ''POST'' \<or> (\<exists>e. Body r = Inl e)
     \<or> Header_Get (Header r) ''Content-Type'' \<noteq> ''application/json''
     \<or> (\<exists>body e. Body r = Inr body \<and> D body = Inl e)
     \<or> (\<exists>body review. Body r = Inr body \<and> D body = Inr review \<and> Request review = None)"
  by (auto simp: validated_def split: sum.splits option.splits)

lemma validated_cases:
  obtains (invalid) "validated D r = None"
  | (valid) body request where "validated D r = Some (body, request)"
  by (cases "validated D r") auto

lemma doServeAdmitFunc_deny:
  assumes "validated D r = Some (body, request)"
    and "admit request = (request', patchOps, Some e)"
  shows "doServeAdmitFunc D M w r admit =
           ([ReadAll, Decode body, AdmitCall request],
            encodeReview M \<lparr>AdmissionResponse.UID = AdmissionRequest.UID request,
                             Allowed = False, Result = Some \<lparr>Message = Error e\<rparr>,
                             Patch = None\<rparr>)"
proof -
  from validatedD[OF assms(1)] obtain review where
    v: "Method r = MethodPost" "Body r = Inr body"
       "Header_Get (Header r) ''Content-Type'' = jsonContentType"
       "D body = Inr review" "Request review = Some request"
    by blast
  show ?thesis
    by (simp add: doServeAdmitFunc_def v assms(2) encodeReview_def split: sum.splits)
qed

lemma doServeAdmitFunc_allow:
  assumes "validated D r = Some (body, request)"
    and "admit request = (request', patchOps, None)"
    and "json_Marshal patchOps = Inr patchBytes"
  shows "doServeAdmitFunc D M w r admit =
           ([ReadAll, Decode body, AdmitCall request],
            encodeReview M \<lparr>AdmissionResponse.UID = AdmissionRequest.UID request,
                             Allowed = True, Result = None, Patch = Some patchBytes\<rparr>)"
proof -
  from validatedD[OF assms(1)] obtain review where
    v: "Method r = MethodPost" "Body r = Inr body"
       "Header_Get (Header r) ''Content-Type'' = jsonContentType"
       "D body = Inr review" "Request review = Some request"
    by blast
  show ?thesis
    by (simp add: doServeAdmitFunc_def v assms(2,3) encodeReview_def split: sum.splits)
qed

lemma doServeAdmitFunc_patch_error:
  assumes "validated D r = Some (body, request)"
    and "admit request = (request', patchOps, None)"
    and "json_Marshal patchOps = Inl e"
  shows "doServeAdmitFunc D M w r admit =
           ([ReadAll, Decode body, AdmitCall request, WriteHeader StatusInternalServerError],
            Inl (errors_New (''could not marshal JSON patch: '' @ Error e)))"
proof -
  from validatedD[OF assms(1)] obtain review where
    v: "Method r = MethodPost" "Body r = Inr body"
       "Header_Get (Header r) ''Content-Type'' = jsonContentType"
       "D body = Inr review" "Request review = Some request"
    by blast
  show ?thesis
    by (simp add: doServeAdmitFunc_def v assms(2,3))
qed

lemma doServeAdmitFunc_not_validated:
  assumes "validated D r = None"
  shows "admitCalls (fst (doServeAdmitFunc D M w r admit)) = []"
  using assms
  by (auto simp: validated_def doServeAdmitFunc_def MethodPost_def jsonContentType_def Let_def
           split: if_splits sum.splits option.splits)

lemma statusSent_append:
  "statusSent (xs @ ys) = (case statusSent xs of None \<Rightarrow> statusSent ys | Some c \<Rightarrow> Some c)"
  by (induction xs rule: statusSent.induct) simp_all

lemma bodyWritten_append: "bodyWritten (xs @ ys) = bodyWritten xs @ bodyWritten ys"
  by (induction xs rule: bodyWritten.induct) simp_all

lemma admitCalls_append: "admitCalls (xs @ ys) = admitCalls xs @ admitCalls ys"
  by (induction xs rule: admitCalls.induct) simp_all

lemma logWriteErr_silent:
  "statusSent (logWriteErr x) = None" "bodyWritten (logWriteErr x) = []"
  "admitCalls (logWriteErr x) = []"
  by (simp_all add: logWriteErr_def split: option.splits)

lemma serveAdmitFunc_error:
  assumes "doServeAdmitFunc D M w r admit = (evs, Inl err)"
  shows "serveAdmitFunc D M w r admit =
           Log ''Handling webhook request ...'' # evs @
           [Log (''Error handling webhook request: '' @ Error err),
            WriteHeader StatusInternalServerError, Write (Error err)]
           @ logWriteErr (Write_error w (Error err))"
  by (simp add: serveAdmitFunc_def assms)

lemma serveAdmitFunc_success:
  assumes "doServeAdmitFunc D M w r admit = (evs, Inr bytes)"
  shows "serveAdmitFunc D M w r admit =
           Log ''Handling webhook request ...'' # evs @
           [Log ''Webhook request handled successfully'', Write bytes]
           @ logWriteErr (Write_error w bytes)"
  by (simp add: serveAdmitFunc_def assms)

lemma doServeAdmitFunc_events:
  assumes "doServeAdmitFunc D M w r admit = (evs, res)"
  shows "bodyWritten evs = []"
    and "case res of Inr bytes \<Rightarrow> statusSent evs = None
         | Inl err \<Rightarrow> statusSent evs \<in> {None, Some 400, Some 405, Some 500}"
  using assms
  by (auto simp: doServeAdmitFunc_def Let_def StatusBadRequest_def StatusMethodNotAllowed_def
                 StatusInternalServerError_def
           split: if_splits sum.splits option.splits prod.splits)

lemma doServeAdmitFunc_valid_events:
  assumes "validated D r = Some (body, request)"
    and "doServeAdmitFunc D M w r admit = (evs, res)"
  shows "admitCalls evs = [request]" and "take 3 evs = [ReadAll, Decode body, AdmitCall request]"
proof -
  obtain request' patchOps err where a: "admit request = (request', patchOps, err)"
    by (cases "admit request") auto
  have "admitCalls evs = [request] \<and> take 3 evs = [ReadAll, Decode body, AdmitCall request]"
  proof (cases err)
    case (Some e)
    with a assms doServeAdmitFunc_deny[where admit=admit and M=M and w=w, OF assms(1)]
    show ?thesis by auto
  next
    case None
    show ?thesis
    proof (cases "json_Marshal patchOps")
      case (Inl e)
      with None a assms
        doServeAdmitFunc_patch_error[where admit=admit and M=M and w=w, OF assms(1)]
      show ?thesis by auto
    next
      case (Inr patchBytes)
      with None a assms doServeAdmitFunc_allow[where admit=admit and M=M and w=w, OF assms(1)]
      show ?thesis by auto
    qed
  qed
  then show "admitCalls evs = [request]"
    and "take 3 evs = [ReadAll, Decode body, AdmitCall request]"
    by simp_all
qed

lemma admitCalls_serveAdmitFunc:
  "admitCalls (serveAdmitFunc D M w r admit) = admitCalls (fst (doServeAdmitFunc D M w r admit))"
  by (cases "doServeAdmitFunc D M w r admit")
     (auto simp: serveAdmitFunc_def admitCalls_append logWriteErr_silent split: sum.splits)

lemma doServeAdmitFunc_invalid_any:
  assumes "validated D r = None"
  shows "doServeAdmitFunc D M w r admit' = doServeAdmitFunc D M w r admit"
  using assms
  by (auto simp: validated_def doServeAdmitFunc_def MethodPost_def jsonContentType_def Let_def
           split: if_splits sum.splits option.splits)

lemma doServeAdmitFunc_valid_outcome:
  assumes "validated D r = Some (body, request)"
  shows "doServeAdmitFunc D M w r admit =
           (case admit request of
              (request', patchOps, Some e) \<Rightarrow>
                ([ReadAll, Decode body, AdmitCall request],
                 encodeReview M \<lparr>AdmissionResponse.UID = AdmissionRequest.UID request,
                                  Allowed = False, Result = Some \<lparr>Message = Error e\<rparr>,
                                  Patch = None\<rparr>)
            | (request', patchOps, None) \<Rightarrow>
                (case json_Marshal patchOps of
                   Inl e \<Rightarrow>
                     ([ReadAll, Decode body, AdmitCall request, WriteHeader 500],
                      Inl (errors_New (''could not marshal JSON patch: '' @ Error e)))
                 | Inr patchBytes \<Rightarrow>
                     ([ReadAll, Decode body, AdmitCall request],
                      encodeReview M \<lparr>AdmissionResponse.UID = AdmissionRequest.UID request,
                                       Allowed = True, Result = None,
                                       Patch = Some patchBytes\<rparr>)))"
proof -
  obtain request' patchOps err where a: "admit request = (request', patchOps, err)"
    by (cases "admit request") auto
  show ?thesis
  proof (cases err)
    case (Some e)
    with a show ?thesis
      by (simp add: doServeAdmitFunc_deny[where admit=admit, OF assms])
  next
    case None
    show ?thesis
    proof (cases "json_Marshal patchOps")
      case (Inl e)
      with a None show ?thesis
        by (simp add: doServeAdmitFunc_patch_error[where admit=admit, OF assms]
                      StatusInternalServerError_def)
    next
      case (Inr patchBytes)
      with a None show ?thesis
        by (simp add: doServeAdmitFunc_allow[where admit=admit, OF assms])
    qed
  qed
qed

lemma doServeAdmitFunc_valid_agree:
  assumes "validated D r = Some (body, request)" and "admit' request = admit request"
  shows "doServeAdmitFunc D M w r admit' = doServeAdmitFunc D M w r admit"
  by (simp only: doServeAdmitFunc_valid_outcome[OF assms(1)] assms(2))

lemma serveAdmitFunc_cong:
  "doServeAdmitFunc D M w r admit' = doServeAdmitFunc D M w r admit
   \<Longrightarrow> serveAdmitFunc D M w r admit' = serveAdmitFunc D M w r admit"
  by (simp add: serveAdmitFunc_def)

lemma json_Marshal_nonempty: "json_Marshal patchOps = Inr patchBytes \<Longrightarrow> patchBytes \<noteq> []"
  by (cases patchOps) (auto split: sum.splits)

lemma validated_samplePost: "validated sampleDecode samplePost = Some (sampleBody, sampleRequest)"
  by (simp add: validated_def samplePost_def sampleDecode_def Header_Get_def)

lemma sampleDeny_sampleRequest:
  "sampleDeny sampleRequest
     = (\<lparr>AdmissionRequest.UID = ''changed'', Rest = ()\<rparr>, None,
        Some (errors_New ''image not allowed''))"
  by (simp add: sampleDeny_def sampleRequest_def)

lemma sampleMarshal_denied:
  "sampleMarshal \<lparr>Request = None,
       Response = Some \<lparr>AdmissionResponse.UID = AdmissionRequest.UID sampleRequest,
                         Allowed = False,
                         Result = Some \<lparr>Message = Error (errors_New ''image not allowed'')\<rparr>,
                         Patch = None\<rparr>\<rparr>
     = Inr ''uid=abc-1 denied message=image not allowed''"
  by (simp add: sampleMarshal_def sampleRequest_def)

lemma doServeAdmitFunc_samples:
  "doServeAdmitFunc sampleDecode sampleMarshal sampleWriter samplePost sampleDeny
     = ([ReadAll, Decode sampleBody, AdmitCall sampleRequest],
        Inr ''uid=abc-1 denied message=image not allowed'')"
  by (simp add: doServeAdmitFunc_deny[where admit=sampleDeny, OF validated_samplePost
                                        sampleDeny_sampleRequest]
                encodeReview_def sampleMarshal_def sampleRequest_def)

lemma sampleAllow_sampleRequest: "sampleAllow sampleRequest = (sampleRequest, Some sampleOps, None)"
  by (simp add: sampleAllow_def)

lemma json_Marshal_sampleOps:
  \<open>json_Marshal (Some sampleOps) = Inr samplePatch\<close>
  by (simp add: sampleOps_def samplePatch_def encodeOp_def encodeString_def htmlSafe_def)

lemma doServeAdmitFunc_sampleAllow:
  \<open>doServeAdmitFunc sampleDecode sampleMarshal sampleWriter samplePost sampleAllow =
     ([ReadAll, Decode sampleBody, AdmitCall sampleRequest],
      Inr (''uid=abc-1 allowed patch='' @ samplePatch))\<close>
  by (simp add: doServeAdmitFunc_allow[where admit=sampleAllow, OF validated_samplePost
                                         sampleAllow_sampleRequest json_Marshal_sampleOps]
                encodeReview_def sampleMarshal_def sampleRequest_def)

lemma validOps_sampleOps: "validOps (Some sampleOps)"
  by (simp add: sampleOps_def validOp_def runeLen_def)

lemma json_Marshal_latin1:
  "json_Marshal (Some [\<lparr>Op = [CHR 0xFF], Path = ''/x'', Value = GoNil\<rparr>]) = Inr latin1Patch"
  by (simp add: latin1Patch_def encodeOp_def encodeString_def htmlSafe_def runeLen_def
                acceptRange_def)

lemma decodeMembers_numeral:
  "decodeMembers (numeral k) p s = decodeMembers (Suc (pred_numeral k)) p s"
  by (simp only: numeral_eq_Suc)

lemma decodeOps_numeral: "decodeOps (numeral k) s = decodeOps (Suc (pred_numeral k)) s"
  by (simp only: numeral_eq_Suc)

lemma json_Unmarshal_latin1Patch:
  "json_Unmarshal latin1Patch
     = Decoded (Some [\<lparr>Op = [CHR 0xEF, CHR 0xBF, CHR 0xBD], Path = ''/x'', Value = GoNil\<rparr>])"
  by (simp add: latin1Patch_def json_Unmarshal_def skipSpace_def isSpace_def decodeOps_numeral
                decodeMembers_numeral decodeOp_def zeroOp_def getu4_def hexValue_def
                encodeRune_def replacementChar_def char_of_eq_iff equalFold_def toLower_def
                simpleEscape_def)

section \<open>The claims\<close>

text \<open>
  Claim C1. For every request that passes validation and decoding, whenever
  \<open>doServeAdmitFunc\<close> returns bytes they are the encoding of a response whose UID is
  the UID of the decoded request. The UID is taken before the callback runs: the
  request as the callback leaves it (\<open>request'\<close>) plays no part, and the UID itself is
  arbitrary (empty, or of any length).
\<close>

theorem uid_echoed:
  assumes "validated D r = Some (body, request)"
    and "admit request = (request', patchOps, err)"
    and "doServeAdmitFunc D M w r admit = (evs, Inr bytes)"
  shows "\<exists>response. encodeReview M response = Inr bytes
           \<and> AdmissionResponse.UID response = AdmissionRequest.UID request"
proof (cases err)
  case (Some e)
  with assms doServeAdmitFunc_deny[where admit=admit and M=M and w=w, OF assms(1)]
  show ?thesis by auto
next
  case None
  show ?thesis
  proof (cases "json_Marshal patchOps")
    case (Inl e)
    with None assms doServeAdmitFunc_patch_error[where admit=admit and M=M and w=w, OF assms(1)]
    show ?thesis by simp
  next
    case (Inr patchBytes)
    with None assms doServeAdmitFunc_allow[where admit=admit and M=M and w=w, OF assms(1)]
    show ?thesis by auto
  qed
qed

theorem uid_echoed_witness:
  "validated sampleDecode samplePost = Some (sampleBody, sampleRequest)
   \<and> sampleDeny sampleRequest
       = (\<lparr>AdmissionRequest.UID = ''changed'', Rest = ()\<rparr>, None,
          Some (errors_New ''image not allowed''))
   \<and> doServeAdmitFunc sampleDecode sampleMarshal sampleWriter samplePost sampleDeny
       = ([ReadAll, Decode sampleBody, AdmitCall sampleRequest],
          Inr ''uid=abc-1 denied message=image not allowed'')
   \<and> (\<exists>response. encodeReview sampleMarshal response
                     = Inr ''uid=abc-1 denied message=image not allowed''
                   \<and> AdmissionResponse.UID response = ''abc-1'')"
  using validated_samplePost sampleDeny_sampleRequest doServeAdmitFunc_samples
    uid_echoed[where admit=sampleDeny, OF validated_samplePost sampleDeny_sampleRequest
               doServeAdmitFunc_samples]
  by (simp add: sampleRequest_def)

text \<open>
  Claim C2. For a valid request whose callback returns an error \<open>e\<close> (with any first
  result), once the envelope itself is encoded without error the adapter returns those
  bytes and writes no status; the exchange ends with status 200 and the bytes as body.
  The envelope that is encoded has \<open>Allowed = False\<close> and the message \<open>Error e\<close>.
\<close>

theorem denial_is_success_exchange:
  assumes "validated D r = Some (body, request)"
    and "admit request = (request', patchOps, Some e)"
    and "M \<lparr>Request = None,
            Response = Some \<lparr>AdmissionResponse.UID = AdmissionRequest.UID request,
                              Allowed = False, Result = Some \<lparr>Message = Error e\<rparr>,
                              Patch = None\<rparr>\<rparr> = Inr bytes"
  shows "doServeAdmitFunc D M w r admit = ([ReadAll, Decode body, AdmitCall request], Inr bytes)
         \<and> statusSent (fst (doServeAdmitFunc D M w r admit)) = None
         \<and> httpStatus (serveAdmitFunc D M w r admit) = 200
         \<and> bodyWritten (serveAdmitFunc D M w r admit) = bytes"
proof -
  have d: "doServeAdmitFunc D M w r admit = ([ReadAll, Decode body, AdmitCall request], Inr bytes)"
    by (simp add: doServeAdmitFunc_deny[where admit=admit, OF assms(1,2)] encodeReview_def
                  assms(3))
  show ?thesis
    by (simp add: d serveAdmitFunc_success[OF d] httpStatus_def StatusOK_def
                  statusSent_append bodyWritten_append logWriteErr_silent)
qed

theorem denial_is_success_exchange_witness:
  "validated sampleDecode samplePost = Some (sampleBody, sampleRequest)
   \<and> sampleDeny sampleRequest
       = (\<lparr>AdmissionRequest.UID = ''changed'', Rest = ()\<rparr>, None,
          Some (errors_New ''image not allowed''))
   \<and> sampleMarshal \<lparr>Request = None,
         Response = Some \<lparr>AdmissionResponse.UID = ''abc-1'', Allowed = False,
                           Result = Some \<lparr>Message = ''image not allowed''\<rparr>,
                           Patch = None\<rparr>\<rparr>
       = Inr ''uid=abc-1 denied message=image not allowed''
   \<and> httpStatus (serveAdmitFunc sampleDecode sampleMarshal sampleWriter samplePost sampleDeny)
       = 200
   \<and> bodyWritten (serveAdmitFunc sampleDecode sampleMarshal sampleWriter samplePost sampleDeny)
       = ''uid=abc-1 denied message=image not allowed''"
  using validated_samplePost sampleDeny_sampleRequest sampleMarshal_denied
    denial_is_success_exchange[where admit=sampleDeny and w=sampleWriter and M=sampleMarshal,
      OF validated_samplePost sampleDeny_sampleRequest sampleMarshal_denied]
  by (simp add: sampleRequest_def)

text \<open>
  Claim C3, as amended. For a valid request whose callback returns \<open>(patchOps, nil)\<close>:
  when \<open>json.Marshal(patchOps)\<close> succeeds, the envelope that is encoded has
  \<open>Allowed = True\<close> and carries exactly the bytes \<open>json.Marshal\<close> produced as its
  patch, and if every string in \<open>patchOps\<close> is valid UTF-8, decoding those bytes gives
  back exactly \<open>patchOps\<close>; when \<open>json.Marshal(patchOps)\<close> fails, the adapter writes
  status 500 and returns an error, and no envelope is produced. (Values are the nil
  interface, booleans, strings, slices of these, and channels.)
\<close>

theorem patch_is_marshalled_ops:
  assumes "validated D r = Some (body, request)"
    and "admit request = (request', patchOps, None)"
  shows "(case json_Marshal patchOps of
            Inr patchBytes \<Rightarrow>
              doServeAdmitFunc D M w r admit =
                ([ReadAll, Decode body, AdmitCall request],
                 encodeReview M \<lparr>AdmissionResponse.UID = AdmissionRequest.UID request,
                                  Allowed = True, Result = None, Patch = Some patchBytes\<rparr>)
              \<and> (validOps patchOps \<longrightarrow> json_Unmarshal patchBytes = Decoded patchOps)
          | Inl e \<Rightarrow>
              doServeAdmitFunc D M w r admit =
                ([ReadAll, Decode body, AdmitCall request, WriteHeader 500],
                 Inl (errors_New (''could not marshal JSON patch: '' @ Error e))))"
proof (cases "json_Marshal patchOps")
  case (Inl e)
  then show ?thesis
    by (simp add: doServeAdmitFunc_patch_error[where admit=admit, OF assms Inl]
                  StatusInternalServerError_def)
next
  case (Inr patchBytes)
  then show ?thesis
    using json_Unmarshal_json_Marshal[OF Inr]
    by (simp add: doServeAdmitFunc_allow[where admit=admit, OF assms Inr])
qed

theorem patch_is_marshalled_ops_witness:
  "validated sampleDecode samplePost = Some (sampleBody, sampleRequest)
   \<and> sampleAllow sampleRequest = (sampleRequest, Some sampleOps, None)
   \<and> json_Marshal (Some sampleOps) = Inr samplePatch
   \<and> validOps (Some sampleOps)
   \<and> doServeAdmitFunc sampleDecode sampleMarshal sampleWriter samplePost sampleAllow =
       ([ReadAll, Decode sampleBody, AdmitCall sampleRequest],
        Inr (''uid=abc-1 allowed patch='' @ samplePatch))
   \<and> json_Unmarshal samplePatch = Decoded (Some sampleOps)"
  using validated_samplePost sampleAllow_sampleRequest json_Marshal_sampleOps
    validOps_sampleOps
    patch_is_marshalled_ops[where admit=sampleAllow and w=sampleWriter and M=sampleMarshal,
      OF validated_samplePost sampleAllow_sampleRequest]
  by (simp add: encodeReview_def sampleMarshal_def sampleRequest_def
           del: json_Marshal.simps validOps.simps)

text \<open>
  Claim C3 as stated fails, in two ways. The callback \<open>sampleChan\<close> returns, with a nil
  error, one operation whose value is a channel: the request is valid, yet the adapter
  returns an error and the exchange ends with status 500 and a plain-text body, so
  there is no response with \<open>allowed = true\<close> and no patch to decode. The callback
  \<open>sampleLatin1\<close> returns one operation whose \<open>Op\<close> is the single byte 0xFF, which is
  not valid UTF-8: the response is allowed, and decoding its patch gives an operation
  whose \<open>Op\<close> is the three bytes of U+FFFD instead.
\<close>

theorem patch_roundtrip_counterexample:
  \<open>validated sampleDecode samplePost = Some (sampleBody, sampleRequest)
   \<and> sampleChan sampleRequest
       = (sampleRequest,
          Some [\<lparr>Op = ''add'', Path = ''/spec/foo'', Value = GoChan ''chan int''\<rparr>], None)
   \<and> doServeAdmitFunc sampleDecode sampleMarshal sampleWriter samplePost sampleChan
       = ([ReadAll, Decode sampleBody, AdmitCall sampleRequest, WriteHeader 500],
          Inl (errors_New ''could not marshal JSON patch: json: unsupported type: chan int''))
   \<and> httpStatus (serveAdmitFunc sampleDecode sampleMarshal sampleWriter samplePost sampleChan)
       = 500
   \<and> bodyWritten (serveAdmitFunc sampleDecode sampleMarshal sampleWriter samplePost sampleChan)
       = ''could not marshal JSON patch: json: unsupported type: chan int''
   \<and> sampleLatin1 sampleRequest
       = (sampleRequest, Some [\<lparr>Op = [CHR 0xFF], Path = ''/x'', Value = GoNil\<rparr>], None)
   \<and> doServeAdmitFunc sampleDecode sampleMarshal sampleWriter samplePost sampleLatin1
       = ([ReadAll, Decode sampleBody, AdmitCall sampleRequest],
          Inr (''uid=abc-1 allowed patch='' @ latin1Patch))
   \<and> json_Unmarshal latin1Patch
       = Decoded (Some [\<lparr>Op = [CHR 0xEF, CHR 0xBF, CHR 0xBD], Path = ''/x'', Value = GoNil\<rparr>])
   \<and> json_Unmarshal latin1Patch
       \<noteq> Decoded (Some [\<lparr>Op = [CHR 0xFF], Path = ''/x'', Value = GoNil\<rparr>])\<close>
proof -
  have a: "sampleChan sampleRequest
       = (sampleRequest,
          Some [\<lparr>Op = ''add'', Path = ''/spec/foo'', Value = GoChan ''chan int''\<rparr>], None)"
    by (simp add: sampleChan_def)
  have m: "json_Marshal (Some [\<lparr>Op = ''add'', Path = ''/spec/foo'', Value = GoChan ''chan int''\<rparr>])
             = Inl (errors_New ''json: unsupported type: chan int'')"
    by (simp add: encodeOp_def)
  have d: "doServeAdmitFunc sampleDecode sampleMarshal sampleWriter samplePost sampleChan
       = ([ReadAll, Decode sampleBody, AdmitCall sampleRequest, WriteHeader 500],
          Inl (errors_New ''could not marshal JSON patch: json: unsupported type: chan int''))"
    by (simp add: doServeAdmitFunc_patch_error[where admit=sampleChan, OF validated_samplePost a m]
                  StatusInternalServerError_def)
  have s: "httpStatus (serveAdmitFunc sampleDecode sampleMarshal sampleWriter samplePost sampleChan)
             = 500
           \<and> bodyWritten (serveAdmitFunc sampleDecode sampleMarshal sampleWriter samplePost
                            sampleChan)
             = ''could not marshal JSON patch: json: unsupported type: chan int''"
    by (simp add: serveAdmitFunc_error[OF d] httpStatus_def
                  logWriteErr_silent statusSent_append bodyWritten_append)
  have a2: "sampleLatin1 sampleRequest
       = (sampleRequest, Some [\<lparr>Op = [CHR 0xFF], Path = ''/x'', Value = GoNil\<rparr>], None)"
    by (simp add: sampleLatin1_def)
  have d2: "doServeAdmitFunc sampleDecode sampleMarshal sampleWriter samplePost sampleLatin1
       = ([ReadAll, Decode sampleBody, AdmitCall sampleRequest],
          Inr (''uid=abc-1 allowed patch='' @ latin1Patch))"
    by (simp add: doServeAdmitFunc_allow[where admit=sampleLatin1, OF validated_samplePost a2
                                           json_Marshal_latin1]
                  encodeReview_def sampleMarshal_def sampleRequest_def)
  show ?thesis
    using validated_samplePost a d s a2 d2 json_Unmarshal_latin1Patch by simp
qed

text \<open>
  Claim C4. For a valid request, whenever \<open>doServeAdmitFunc\<close> returns bytes they are the
  encoding of a response with exactly one of the two outcomes: the callback's error was
  nil and the response is allowed, has no status and carries a non-empty patch (the
  encoded operations); or the callback returned an error and the response is not
  allowed, has no patch and carries the error's text as its message.
\<close>

theorem exactly_one_outcome:
  assumes "validated D r = Some (body, request)"
    and "admit request = (request', patchOps, err)"
    and "doServeAdmitFunc D M w r admit = (evs, Inr bytes)"
  shows "\<exists>response. encodeReview M response = Inr bytes
           \<and> ((err = None \<and> Allowed response \<and> Result response = None
                \<and> (\<exists>patchBytes. Patch response = Some patchBytes \<and> patchBytes \<noteq> []
                       \<and> json_Marshal patchOps = Inr patchBytes))
               \<or> (\<exists>e. err = Some e \<and> \<not> Allowed response \<and> Patch response = None
                       \<and> Result response = Some \<lparr>Message = Error e\<rparr>))"
proof (cases err)
  case (Some e)
  with assms doServeAdmitFunc_deny[where admit=admit and M=M and w=w, OF assms(1)]
  show ?thesis by auto
next
  case None
  show ?thesis
  proof (cases "json_Marshal patchOps")
    case (Inl e)
    with None assms doServeAdmitFunc_patch_error[where admit=admit and M=M and w=w, OF assms(1)]
    show ?thesis by simp
  next
    case (Inr patchBytes)
    from json_Marshal_nonempty[OF Inr] have "patchBytes \<noteq> []" .
    with Inr None assms doServeAdmitFunc_allow[where admit=admit and M=M and w=w, OF assms(1)]
    show ?thesis by auto
  qed
qed

theorem exactly_one_outcome_witness:
  \<open>validated sampleDecode samplePost = Some (sampleBody, sampleRequest)
   \<and> sampleAllow sampleRequest = (sampleRequest, Some sampleOps, None)
   \<and> doServeAdmitFunc sampleDecode sampleMarshal sampleWriter samplePost sampleAllow =
       ([ReadAll, Decode sampleBody, AdmitCall sampleRequest],
        Inr (''uid=abc-1 allowed patch='' @ samplePatch))
   \<and> (\<exists>response. encodeReview sampleMarshal response
          = Inr (''uid=abc-1 allowed patch='' @ samplePatch)
        \<and> Allowed response \<and> Result response = None
        \<and> Patch response = Some samplePatch)\<close>
proof -
  from exactly_one_outcome[where admit=sampleAllow,
      OF validated_samplePost sampleAllow_sampleRequest doServeAdmitFunc_sampleAllow]
  obtain response where
    "encodeReview sampleMarshal response
       = Inr (''uid=abc-1 allowed patch='' @ samplePatch)"
    and "Allowed response" and "Result response = None"
    and "Patch response = Some samplePatch"
    by (auto simp: json_Marshal_sampleOps simp del: json_Marshal.simps)
  with validated_samplePost sampleAllow_sampleRequest doServeAdmitFunc_sampleAllow
  show ?thesis by blast
qed

text \<open>
  Claim C5. For every request the callback is invoked at most once. When the request
  does not pass validation and decoding (wrong method, unreadable body, wrong content
  type, undecodable envelope or nil inner request: lemma \<open>validated_None_iff\<close>) it is
  not invoked at all: no call is recorded, and the adapter and the wrapper do the same
  whatever the callback is. When the request passes, the callback is invoked exactly
  once, with the decoded inner request and after the body read and the decode: one call
  is recorded, the adapter's result is computed from the one value \<open>admit request\<close>
  (a denial carrying its error text, or the encoding of its operations), and two
  callbacks that agree at the decoded request give the same run, so the callback is
  applied nowhere else.
\<close>

theorem callback_invoked_once_after_decode:
  "(case validated D r of
      None \<Rightarrow>
        admitCalls (serveAdmitFunc D M w r admit) = []
        \<and> (\<forall>admit'. doServeAdmitFunc D M w r admit' = doServeAdmitFunc D M w r admit
                     \<and> serveAdmitFunc D M w r admit' = serveAdmitFunc D M w r admit)
    | Some (body, request) \<Rightarrow>
        admitCalls (serveAdmitFunc D M w r admit) = [request]
        \<and> take 3 (fst (doServeAdmitFunc D M w r admit))
            = [ReadAll, Decode body, AdmitCall request]
        \<and> doServeAdmitFunc D M w r admit =
            (case admit request of
               (request', patchOps, Some e) \<Rightarrow>
                 ([ReadAll, Decode body, AdmitCall request],
                  encodeReview M \<lparr>AdmissionResponse.UID = AdmissionRequest.UID request,
                                   Allowed = False, Result = Some \<lparr>Message = Error e\<rparr>,
                                   Patch = None\<rparr>)
             | (request', patchOps, None) \<Rightarrow>
                 (case json_Marshal patchOps of
                    Inl e \<Rightarrow>
                      ([ReadAll, Decode body, AdmitCall request, WriteHeader 500],
                       Inl (errors_New (''could not marshal JSON patch: '' @ Error e)))
                  | Inr patchBytes \<Rightarrow>
                      ([ReadAll, Decode body, AdmitCall request],
                       encodeReview M \<lparr>AdmissionResponse.UID = AdmissionRequest.UID request,
                                        Allowed = True, Result = None,
                                        Patch = Some patchBytes\<rparr>)))
        \<and> (\<forall>admit'. admit' request = admit request \<longrightarrow>
               doServeAdmitFunc D M w r admit' = doServeAdmitFunc D M w r admit
               \<and> serveAdmitFunc D M w r admit' = serveAdmitFunc D M w r admit))
   \<and> length (admitCalls (serveAdmitFunc D M w r admit)) \<le> 1"
proof (cases rule: validated_cases[of D r])
  case invalid
  have c: "admitCalls (serveAdmitFunc D M w r admit) = []"
    by (simp add: admitCalls_serveAdmitFunc doServeAdmitFunc_not_validated[OF invalid])
  have any: "\<forall>admit'. doServeAdmitFunc D M w r admit' = doServeAdmitFunc D M w r admit
                     \<and> serveAdmitFunc D M w r admit' = serveAdmitFunc D M w r admit"
  proof (intro allI conjI)
    fix admit' :: "'a admitFunc"
    show d: "doServeAdmitFunc D M w r admit' = doServeAdmitFunc D M w r admit"
      by (rule doServeAdmitFunc_invalid_any[OF invalid])
    show "serveAdmitFunc D M w r admit' = serveAdmitFunc D M w r admit"
      by (rule serveAdmitFunc_cong[OF d])
  qed
  have l: "length (admitCalls (serveAdmitFunc D M w r admit)) \<le> 1"
    by (simp only: c list.size)
  show ?thesis
    unfolding invalid option.case
    by (rule conjI[OF conjI[OF c any] l])
next
  case (valid body request)
  obtain evs res where d: "doServeAdmitFunc D M w r admit = (evs, res)"
    by (cases "doServeAdmitFunc D M w r admit") auto
  have c: "admitCalls (serveAdmitFunc D M w r admit) = [request]"
    using doServeAdmitFunc_valid_events(1)[OF valid d] by (simp add: admitCalls_serveAdmitFunc d)
  have t: "take 3 (fst (doServeAdmitFunc D M w r admit))
             = [ReadAll, Decode body, AdmitCall request]"
    using doServeAdmitFunc_valid_events(2)[OF valid d] by (simp add: d)
  note out = doServeAdmitFunc_valid_outcome[where M=M and w=w and admit=admit, OF valid]
  have agree: "\<forall>admit'. admit' request = admit request \<longrightarrow>
      doServeAdmitFunc D M w r admit' = doServeAdmitFunc D M w r admit
      \<and> serveAdmitFunc D M w r admit' = serveAdmitFunc D M w r admit"
  proof (intro allI impI conjI)
    fix admit' :: "'a admitFunc"
    assume a: "admit' request = admit request"
    show e: "doServeAdmitFunc D M w r admit' = doServeAdmitFunc D M w r admit"
      by (rule doServeAdmitFunc_valid_agree[where admit=admit and admit'=admit', OF valid a])
    show "serveAdmitFunc D M w r admit' = serveAdmitFunc D M w r admit"
      by (rule serveAdmitFunc_cong[OF e])
  qed
  have l: "length (admitCalls (serveAdmitFunc D M w r admit)) \<le> 1"
    by (simp only: c) simp
  show ?thesis
    unfolding valid option.case prod.case
    by (rule conjI[OF conjI[OF c conjI[OF t conjI[OF out agree]]] l])
qed

theorem callback_invoked_once_after_decode_witness:
  "validated sampleDecode samplePost = Some (sampleBody, sampleRequest)
   \<and> sampleSwitch sampleRequest = sampleDeny sampleRequest
   \<and> sampleSwitch \<noteq> sampleDeny
   \<and> admitCalls (serveAdmitFunc sampleDecode sampleMarshal sampleWriter samplePost sampleDeny)
       = [sampleRequest]
   \<and> doServeAdmitFunc sampleDecode sampleMarshal sampleWriter samplePost sampleSwitch
       = doServeAdmitFunc sampleDecode sampleMarshal sampleWriter samplePost sampleDeny
   \<and> doServeAdmitFunc sampleDecode sampleMarshal sampleWriter samplePost sampleDeny
       = ([ReadAll, Decode sampleBody, AdmitCall sampleRequest],
          Inr ''uid=abc-1 denied message=image not allowed'')
   \<and> doServeAdmitFunc sampleDecode sampleMarshal sampleWriter samplePost sampleAllow
       \<noteq> doServeAdmitFunc sampleDecode sampleMarshal sampleWriter samplePost sampleDeny
   \<and> validated sampleDecode sampleGet = None
   \<and> admitCalls (serveAdmitFunc sampleDecode sampleMarshal sampleWriter sampleGet sampleDeny)
       = []
   \<and> doServeAdmitFunc sampleDecode sampleMarshal sampleWriter sampleGet sampleAllow
       = doServeAdmitFunc sampleDecode sampleMarshal sampleWriter sampleGet sampleDeny"
proof -
  have s: "sampleSwitch sampleRequest = sampleDeny sampleRequest"
    by (simp add: sampleSwitch_def)
  have "sampleSwitch \<lparr>AdmissionRequest.UID = ''other'', Rest = ()\<rparr>
          \<noteq> sampleDeny \<lparr>AdmissionRequest.UID = ''other'', Rest = ()\<rparr>"
    by (simp add: sampleSwitch_def sampleRequest_def sampleDeny_def sampleAllow_def)
  then have n: "sampleSwitch \<noteq> sampleDeny" by auto
  have ne: "doServeAdmitFunc sampleDecode sampleMarshal sampleWriter samplePost sampleAllow
       \<noteq> doServeAdmitFunc sampleDecode sampleMarshal sampleWriter samplePost sampleDeny"
    by (simp add: doServeAdmitFunc_sampleAllow doServeAdmitFunc_samples)
  have inst: "admitCalls (serveAdmitFunc sampleDecode sampleMarshal sampleWriter samplePost
                           sampleDeny) = [sampleRequest]
      \<and> (\<forall>admit'. admit' sampleRequest = sampleDeny sampleRequest \<longrightarrow>
             doServeAdmitFunc sampleDecode sampleMarshal sampleWriter samplePost admit'
               = doServeAdmitFunc sampleDecode sampleMarshal sampleWriter samplePost sampleDeny)"
    using callback_invoked_once_after_decode[where D=sampleDecode and r=samplePost
            and M=sampleMarshal and w=sampleWriter and admit=sampleDeny]
    unfolding validated_samplePost option.case prod.case by blast
  from inst s have e: "doServeAdmitFunc sampleDecode sampleMarshal sampleWriter samplePost
        sampleSwitch
      = doServeAdmitFunc sampleDecode sampleMarshal sampleWriter samplePost sampleDeny"
    by blast
  from inst have c: "admitCalls (serveAdmitFunc sampleDecode sampleMarshal sampleWriter
                                  samplePost sampleDeny) = [sampleRequest]"
    by blast
  have g: "validated sampleDecode sampleGet = None"
    by (simp add: validated_def sampleGet_def)
  have inst': "admitCalls (serveAdmitFunc sampleDecode sampleMarshal sampleWriter sampleGet
                            sampleDeny) = []
      \<and> (\<forall>admit'. doServeAdmitFunc sampleDecode sampleMarshal sampleWriter sampleGet admit'
               = doServeAdmitFunc sampleDecode sampleMarshal sampleWriter sampleGet sampleDeny)"
    using callback_invoked_once_after_decode[where D=sampleDecode and r=sampleGet
            and M=sampleMarshal and w=sampleWriter and admit=sampleDeny]
    unfolding g option.case by blast
  from inst' have c': "admitCalls (serveAdmitFunc sampleDecode sampleMarshal sampleWriter
                                    sampleGet sampleDeny) = []"
    by blast
  from inst' have e': "doServeAdmitFunc sampleDecode sampleMarshal sampleWriter sampleGet
        sampleAllow
      = doServeAdmitFunc sampleDecode sampleMarshal sampleWriter sampleGet sampleDeny"
    by blast
  show ?thesis
    by (intro conjI)
       (rule validated_samplePost s n c e doServeAdmitFunc_samples ne g c' e')+
qed

text \<open>
  Claim C6. For every request whose method is not POST, \<open>doServeAdmitFunc\<close> writes
  status 405 and returns an error, and that is all it does: its only event is the
  status, so the body is not read, nothing is decoded and the callback is not invoked.
\<close>

theorem non_post_rejected:
  assumes "Method r \<noteq> ''POST''"
  shows "doServeAdmitFunc D M w r admit =
           ([WriteHeader 405],
            Inl (errors_New (''invalid method '' @ Method r
                             @ '', only POST requests are allowed'')))
         \<and> httpStatus (serveAdmitFunc D M w r admit) = 405"
proof -
  have d: "doServeAdmitFunc D M w r admit =
           ([WriteHeader 405],
            Inl (errors_New (''invalid method '' @ Method r
                             @ '', only POST requests are allowed'')))"
    using assms by (simp add: doServeAdmitFunc_def MethodPost_def StatusMethodNotAllowed_def)
  show ?thesis
    by (simp add: d serveAdmitFunc_error[OF d] httpStatus_def)
qed

theorem non_post_rejected_witness:
  "Method sampleGet \<noteq> ''POST''
   \<and> doServeAdmitFunc sampleDecode sampleMarshal sampleWriter sampleGet sampleAllow
       = ([WriteHeader 405],
          Inl (errors_New ''invalid method GET, only POST requests are allowed''))
   \<and> httpStatus (serveAdmitFunc sampleDecode sampleMarshal sampleWriter sampleGet sampleAllow)
       = 405"
proof -
  have h: "Method sampleGet \<noteq> ''POST''" by (simp add: sampleGet_def)
  show ?thesis
    using h non_post_rejected[OF h, of sampleDecode sampleMarshal sampleWriter sampleAllow]
    by (simp add: sampleGet_def)
qed

text \<open>
  Claim C7. For every POST request with a readable body and the exact JSON content type
  whose body decodes to an envelope with a null inner request, the adapter writes status
  400 and returns the error "malformed admission review: request is nil"; the callback
  is not invoked and the exchange ends with status 400.
\<close>

theorem nil_request_rejected:
  assumes "Method r = ''POST''" and "Body r = Inr body"
    and "Header_Get (Header r) ''Content-Type'' = ''application/json''"
    and "D body = Inr review" and "Request review = None"
  shows "doServeAdmitFunc D M w r admit =
           ([ReadAll, Decode body, WriteHeader 400],
            Inl (errors_New ''malformed admission review: request is nil''))
         \<and> httpStatus (serveAdmitFunc D M w r admit) = 400
         \<and> admitCalls (serveAdmitFunc D M w r admit) = []"
proof -
  have d: "doServeAdmitFunc D M w r admit =
           ([ReadAll, Decode body, WriteHeader 400],
            Inl (errors_New ''malformed admission review: request is nil''))"
    using assms
    by (simp add: doServeAdmitFunc_def MethodPost_def jsonContentType_def StatusBadRequest_def)
  show ?thesis
    by (simp add: d serveAdmitFunc_error[OF d] httpStatus_def logWriteErr_silent)
qed

theorem nil_request_rejected_witness:
  "Method sampleEmpty = ''POST'' \<and> Body sampleEmpty = Inr ''{}''
   \<and> Header_Get (Header sampleEmpty) ''Content-Type'' = ''application/json''
   \<and> sampleDecode ''{}'' = Inr \<lparr>Request = None, Response = None\<rparr>
   \<and> doServeAdmitFunc sampleDecode sampleMarshal sampleWriter sampleEmpty sampleAllow
       = ([ReadAll, Decode ''{}'', WriteHeader 400],
          Inl (errors_New ''malformed admission review: request is nil''))
   \<and> httpStatus (serveAdmitFunc sampleDecode sampleMarshal sampleWriter sampleEmpty sampleAllow)
       = 400
   \<and> admitCalls (serveAdmitFunc sampleDecode sampleMarshal sampleWriter sampleEmpty sampleAllow)
       = []"
proof -
  have h1: "Method sampleEmpty = ''POST''" and h2: "Body sampleEmpty = Inr ''{}''"
    and h3: "Header_Get (Header sampleEmpty) ''Content-Type'' = ''application/json''"
    by (simp_all add: sampleEmpty_def Header_Get_def)
  have h4: "sampleDecode ''{}'' = Inr \<lparr>Request = None, Response = None\<rparr>"
    by (simp add: sampleDecode_def sampleBody_def)
  have h5: "Request \<lparr>Request = None, Response = None :: AdmissionResponse option\<rparr>
              = (None :: unit AdmissionRequest option)"
    by simp
  show ?thesis
    using h1 h2 h3 h4
      nil_request_rejected[where admit=sampleAllow and w=sampleWriter and M=sampleMarshal
                           and D=sampleDecode, OF h1 h2 h3 h4 h5]
    by simp
qed

text \<open>
  Claim C8. For every POST request with a readable body whose Content-Type value is not
  the string "application/json" (compared by string equality, so a value with a
  parameter is refused too), the adapter writes status 400 and returns an error; its
  events are the body read and the status, so nothing is decoded and the callback is
  not invoked.
\<close>

theorem content_type_rejected:
  assumes "Method r = ''POST''" and "Body r = Inr body"
    and "Header_Get (Header r) ''Content-Type'' \<noteq> ''application/json''"
  shows "doServeAdmitFunc D M w r admit =
           ([ReadAll, WriteHeader 400],
            Inl (errors_New (''unsupported content type ''
                             @ Header_Get (Header r) ''Content-Type''
                             @ '', only application/json is supported'')))
         \<and> httpStatus (serveAdmitFunc D M w r admit) = 400"
proof -
  have d: "doServeAdmitFunc D M w r admit =
           ([ReadAll, WriteHeader 400],
            Inl (errors_New (''unsupported content type ''
                             @ Header_Get (Header r) ''Content-Type''
                             @ '', only application/json is supported'')))"
    using assms
    by (simp add: doServeAdmitFunc_def MethodPost_def jsonContentType_def StatusBadRequest_def)
  show ?thesis
    by (simp add: d serveAdmitFunc_error[OF d] httpStatus_def)
qed

theorem content_type_rejected_witness:
  "Method sampleCharset = ''POST'' \<and> Body sampleCharset = Inr sampleBody
   \<and> Header_Get (Header sampleCharset) ''Content-Type'' \<noteq> ''application/json''
   \<and> doServeAdmitFunc sampleDecode sampleMarshal sampleWriter sampleCharset sampleAllow
       = ([ReadAll, WriteHeader 400],
          Inl (errors_New (''unsupported content type application/json; charset=utf-8''
                           @ '', only application/json is supported'')))
   \<and> httpStatus (serveAdmitFunc sampleDecode sampleMarshal sampleWriter sampleCharset
                    sampleAllow) = 400"
proof -
  have h1: "Method sampleCharset = ''POST''" and h2: "Body sampleCharset = Inr sampleBody"
    and h3: "Header_Get (Header sampleCharset) ''Content-Type'' \<noteq> ''application/json''"
    by (simp_all add: sampleCharset_def Header_Get_def)
  show ?thesis
    using h1 h2 h3
      content_type_rejected[where admit=sampleAllow and w=sampleWriter and M=sampleMarshal
                            and D=sampleDecode, OF h1 h2 h3]
    by (simp add: sampleCharset_def Header_Get_def)
qed

text \<open>
  Claim C9. Whatever the adapter returns, the wrapper writes a body. When the adapter
  returns an error, the body is the error's text and the status the client sees is the
  one the adapter wrote (400, 405 or 500) or, when it wrote none, 500. When the adapter
  returns bytes, they are written as they are and the status is 200.
\<close>

theorem wrapper_always_answers:
  "(case doServeAdmitFunc D M w r admit of
      (evs, Inl err) \<Rightarrow>
        httpStatus (serveAdmitFunc D M w r admit)
          = (case statusSent evs of None \<Rightarrow> 500 | Some code \<Rightarrow> code)
        \<and> httpStatus (serveAdmitFunc D M w r admit) \<in> {400, 405, 500}
        \<and> bodyWritten (serveAdmitFunc D M w r admit) = Error err
        \<and> Write (Error err) \<in> set (serveAdmitFunc D M w r admit)
    | (evs, Inr bytes) \<Rightarrow>
        httpStatus (serveAdmitFunc D M w r admit) = 200
        \<and> bodyWritten (serveAdmitFunc D M w r admit) = bytes
        \<and> Write bytes \<in> set (serveAdmitFunc D M w r admit))"
proof -
  obtain evs res where d: "doServeAdmitFunc D M w r admit = (evs, res)"
    by (cases "doServeAdmitFunc D M w r admit") auto
  note ev = doServeAdmitFunc_events[OF d]
  show ?thesis
  proof (cases res)
    case (Inl err)
    with d have d': "doServeAdmitFunc D M w r admit = (evs, Inl err)" by simp
    from ev(2) Inl have "statusSent evs \<in> {None, Some 400, Some 405, Some 500}" by simp
    then show ?thesis
      by (auto simp: d' serveAdmitFunc_error[OF d'] httpStatus_def statusSent_append
                     bodyWritten_append logWriteErr_silent ev(1) StatusInternalServerError_def)
  next
    case (Inr bytes)
    with d have d': "doServeAdmitFunc D M w r admit = (evs, Inr bytes)" by simp
    from ev(2) Inr have "statusSent evs = None" by simp
    then show ?thesis
      by (simp add: d' serveAdmitFunc_success[OF d'] httpStatus_def statusSent_append
                    bodyWritten_append logWriteErr_silent ev(1) StatusOK_def)
  qed
qed

text \<open>
  Claim C10. For a valid request whose callback returns the nil slice and the nil error,
  the envelope that is encoded has \<open>Allowed = True\<close> and the four bytes \<open>null\<close> as its
  patch, which is what encoding the nil slice gives; the empty slice would give \<open>[]\<close>.
  Once the envelope is encoded the adapter returns its bytes and the exchange ends with
  status 200.
\<close>

theorem nil_slice_patch_is_null:
  assumes "validated D r = Some (body, request)"
    and "admit request = (request', None, None)"
    and "M \<lparr>Request = None,
            Response = Some \<lparr>AdmissionResponse.UID = AdmissionRequest.UID request,
                              Allowed = True, Result = None,
                              Patch = Some ''null''\<rparr>\<rparr> = Inr bytes"
  shows "doServeAdmitFunc D M w r admit = ([ReadAll, Decode body, AdmitCall request], Inr bytes)
         \<and> json_Marshal None = Inr ''null''
         \<and> json_Marshal (Some []) = Inr ''[]''
         \<and> httpStatus (serveAdmitFunc D M w r admit) = 200
         \<and> bodyWritten (serveAdmitFunc D M w r admit) = bytes"
proof -
  have m: "json_Marshal None = Inr ''null''" by simp
  have d: "doServeAdmitFunc D M w r admit = ([ReadAll, Decode body, AdmitCall request], Inr bytes)"
    by (simp add: doServeAdmitFunc_allow[where admit=admit, OF assms(1,2) m] encodeReview_def
                  assms(3))
  show ?thesis
    by (simp add: d serveAdmitFunc_success[OF d] httpStatus_def StatusOK_def
                  statusSent_append bodyWritten_append logWriteErr_silent)
qed

theorem nil_slice_patch_is_null_witness:
  "validated sampleDecode samplePost = Some (sampleBody, sampleRequest)
   \<and> sampleNil sampleRequest = (sampleRequest, None, None)
   \<and> doServeAdmitFunc sampleDecode sampleMarshal sampleWriter samplePost sampleNil
       = ([ReadAll, Decode sampleBody, AdmitCall sampleRequest],
          Inr ''uid=abc-1 allowed patch=null'')
   \<and> httpStatus (serveAdmitFunc sampleDecode sampleMarshal sampleWriter samplePost sampleNil)
       = 200
   \<and> bodyWritten (serveAdmitFunc sampleDecode sampleMarshal sampleWriter samplePost sampleNil)
       = ''uid=abc-1 allowed patch=null''"
proof -
  have a: "sampleNil sampleRequest = (sampleRequest, None, None)"
    by (simp add: sampleNil_def)
  have m: "sampleMarshal \<lparr>Request = None,
            Response = Some \<lparr>AdmissionResponse.UID = AdmissionRequest.UID sampleRequest,
                              Allowed = True, Result = None,
                              Patch = Some ''null''\<rparr>\<rparr> = Inr ''uid=abc-1 allowed patch=null''"
    by (simp add: sampleMarshal_def sampleRequest_def)
  show ?thesis
    using validated_samplePost a
      nil_slice_patch_is_null[where admit=sampleNil and w=sampleWriter and M=sampleMarshal,
        OF validated_samplePost a m]
    by simp
qed

end
